theory Spec2Isabelle
  imports Main "HOL-Library.Multiset"
begin

section \<open>Regions\<close>

text \<open>
  Qt's \<^verbatim>\<open>QRegion\<close> is a set of pixels of the integer plane; its operators
  \<^verbatim>\<open>|\<close>, \<^verbatim>\<open>&\<close>, \<^verbatim>\<open>-\<close> and \<^verbatim>\<open>==\<close> are union,
  intersection, difference and equality of pixel sets.
\<close>

type_synonym point = "int \<times> int"
type_synonym region = "point set"

text \<open>\<^verbatim>\<open>QRegion(x, y, w, h)\<close>: the pixels of the rectangle, none when a side is not positive.\<close>

definition QRegion_rect :: "int \<Rightarrow> int \<Rightarrow> int \<Rightarrow> int \<Rightarrow> region" where
  "QRegion_rect x y w h = {x ..< x + w} \<times> {y ..< y + h}"

text \<open>\<^verbatim>\<open>QRegion::translated(QPoint)\<close>.\<close>

definition region_translated :: "region \<Rightarrow> int \<times> int \<Rightarrow> region" where
  "region_translated r d = (\<lambda>p. (fst p + fst d, snd p + snd d)) ` r"

section \<open>Render backend: damage history and buffer age\<close>

text \<open>
  \<^verbatim>\<open>OpenGLBackend::addToDamageHistory\<close> (openglbackend.cpp):
  \<^verbatim>\<open>if (m_damageHistory.count() > 10) m_damageHistory.removeLast();
  m_damageHistory.prepend(region);\<close>
\<close>

definition addToDamageHistory :: "region \<Rightarrow> region list \<Rightarrow> region list" where
  "addToDamageHistory region m_damageHistory =
     region # (if length m_damageHistory > 10 then butlast m_damageHistory else m_damageHistory)"

text \<open>
  The replay loop \<^verbatim>\<open>for (int i = 0; i < bufferAge - 1; i++) region |= m_damageHistory[i];\<close>
  started at index \<open>i\<close> with the region accumulated so far. An index outside the list is
  the failure \<open>None\<close> (Qt asserts there).
\<close>

function replayDamage :: "region list \<Rightarrow> int \<Rightarrow> int \<Rightarrow> region \<Rightarrow> region option" where
  "replayDamage m_damageHistory bufferAge i region =
     (if i < bufferAge - 1 then
        (if 0 \<le> i \<and> nat i < length m_damageHistory
         then replayDamage m_damageHistory bufferAge (i + 1) (region \<union> m_damageHistory ! nat i)
         else None)
      else Some region)"
  by pat_completeness auto
termination
  by (relation "measure (\<lambda>(h, a, i, r). nat (a - 1 - i))") auto

declare replayDamage.simps [simp del]

text \<open>
  \<^verbatim>\<open>OpenGLBackend::accumulatedDamageHistory(int bufferAge)\<close>; \<open>screenSize\<close> is
  \<^verbatim>\<open>screens()->size()\<close>.
\<close>

definition accumulatedDamageHistory :: "int \<times> int \<Rightarrow> region list \<Rightarrow> int \<Rightarrow> region option" where
  "accumulatedDamageHistory screenSize m_damageHistory bufferAge =
     (if bufferAge > 0 \<and> bufferAge \<le> int (length m_damageHistory)
      then replayDamage m_damageHistory bufferAge 0 {}
      else Some (QRegion_rect 0 0 (fst screenSize) (snd screenSize)))"

text \<open>
  \<^verbatim>\<open>EglWaylandBackend::endFrame\<close> and \<^verbatim>\<open>EglGbmBackend::endFrame\<close> keep one history
  per output and repeat the same cap-and-prepend; \<open>presented\<close> is the result of
  \<^verbatim>\<open>presentOnOutput\<close>.
\<close>

definition EglWayland_endFrame :: "bool \<Rightarrow> region \<Rightarrow> region \<Rightarrow> region list \<Rightarrow> region list" where
  "EglWayland_endFrame supportsBufferAge geometry damagedRegion damageHistory =
     (let damage = damagedRegion \<inter> geometry in
      if supportsBufferAge
      then damage # (if length damageHistory > 10 then butlast damageHistory else damageHistory)
      else damageHistory)"

definition EglGbm_endFrame :: "bool \<Rightarrow> bool \<Rightarrow> region \<Rightarrow> region \<Rightarrow> region list \<Rightarrow> region list" where
  "EglGbm_endFrame presented supportsBufferAge geometry damagedRegion damageHistory =
     (if \<not> presented then []
      else if supportsBufferAge
      then (let dirty = damagedRegion \<inter> geometry in
            dirty # (if length damageHistory > 10 then butlast damageHistory else damageHistory))
      else damageHistory)"

text \<open>
  \<^verbatim>\<open>EglWaylandBackend::presentOnSurface\<close> and \<^verbatim>\<open>EglWaylandBackend::endFrame\<close> in
  full, for one output. The calls that leave the backend are logged; \<open>wl_scale\<close> is
  \<^verbatim>\<open>std::ceil(waylandOutput->scale())\<close>, \<open>wl_queryBufferAge\<close> the age that
  \<^verbatim>\<open>eglQuerySurface(.., EGL_BUFFER_AGE_EXT, ..)\<close> reports after the swap. A failed swap
  is only logged by the source, so its result is not a parameter.
\<close>

datatype wl_call =
    SetupFrameCallback
  | SetScale int
  | OutputChange region
  | SwapBuffersWithDamage region
  | SwapBuffers

record EglWaylandOutput =
  wl_geometry :: region
  wl_scale :: int
  wl_bufferAge :: int
  wl_damageHistory :: "region list"
  wl_calls :: "wl_call list"

record wl_env =
  wl_supportsSwapBuffersWithDamage :: bool
  wl_supportsBufferAge :: bool
  wl_queryBufferAge :: int

definition presentOnSurface :: "wl_env \<Rightarrow> EglWaylandOutput \<Rightarrow> region \<Rightarrow> EglWaylandOutput" where
  "presentOnSurface env output damage =
     (let swap = (if wl_supportsSwapBuffersWithDamage env \<and> wl_damageHistory output \<noteq> []
                  then SwapBuffersWithDamage (hd (wl_damageHistory output))
                  else SwapBuffers);
          o1 = output\<lparr>wl_calls := wl_calls output
                         @ [SetupFrameCallback, SetScale (wl_scale output), OutputChange damage, swap]\<rparr>
      in if wl_supportsBufferAge env then o1\<lparr>wl_bufferAge := wl_queryBufferAge env\<rparr> else o1)"

definition EglWaylandBackend_endFrame ::
  "wl_env \<Rightarrow> region \<Rightarrow> region \<Rightarrow> EglWaylandOutput \<Rightarrow> EglWaylandOutput" where
  "EglWaylandBackend_endFrame env renderedRegion damagedRegion output =
     (let damage = damagedRegion \<inter> wl_geometry output;
          o1 = presentOnSurface env output damage
      in if wl_supportsBufferAge env
         then o1\<lparr>wl_damageHistory :=
                   damage # (if length (wl_damageHistory o1) > 10 then butlast (wl_damageHistory o1)
                             else wl_damageHistory o1)\<rparr>
         else o1)"

subsection \<open>Ending a frame on the GBM backend\<close>

text \<open>
  The calls that leave the backend are recorded in a log. \<open>createBuffer\<close> and
  \<open>queryBufferAge\<close> stand for \<^verbatim>\<open>m_backend->createBuffer\<close> and
  \<^verbatim>\<open>eglQuerySurface(.., EGL_BUFFER_AGE_EXT, ..)\<close>, per output index.
\<close>

datatype gl_call = GlFlush | EglSwapBuffers nat | BackendPresent nat nat

text \<open>An entry of \<^verbatim>\<open>m_outputs\<close>: the fields \<^verbatim>\<open>o.bufferAge\<close> and \<^verbatim>\<open>o.buffer\<close>.\<close>

record Output =
  o_bufferAge :: int
  o_buffer :: nat

record egl_env =
  supportsBufferAge :: bool
  createBuffer :: "nat \<Rightarrow> nat"
  queryBufferAge :: "nat \<Rightarrow> int"

record EglGbmBackend =
  m_outputs :: "Output list"
  m_damageHistory :: "region list"
  calls :: "gl_call list"






section \<open>Item tree\<close>

subsection \<open>Rectangles\<close>

text \<open>
  Qt's \<^verbatim>\<open>QRect\<close> stores the corner coordinates \<^verbatim>\<open>x1, y1, x2, y2\<close> (both inclusive);
  a default rectangle is \<^verbatim>\<open>(0, 0, -1, -1)\<close>. The operations used by the item code are
  the constructor from a point and a size, \<^verbatim>\<open>translated\<close>, \<^verbatim>\<open>isNull\<close> and the
  bounding union \<^verbatim>\<open>operator|\<close>, which ignores a null operand and otherwise spans the
  two normalised rectangles.
\<close>

datatype QRect = QRect (rx1: int) (ry1: int) (rx2: int) (ry2: int)

definition QRect_default :: QRect where
  "QRect_default = QRect 0 0 (- 1) (- 1)"

definition QRect_at :: "int \<times> int \<Rightarrow> int \<times> int \<Rightarrow> QRect" where
  "QRect_at topLeft sz =
     QRect (fst topLeft) (snd topLeft) (fst topLeft + fst sz - 1) (snd topLeft + snd sz - 1)"

definition isNull :: "QRect \<Rightarrow> bool" where
  "isNull r = (rx2 r = rx1 r - 1 \<and> ry2 r = ry1 r - 1)"

definition translated :: "QRect \<Rightarrow> int \<times> int \<Rightarrow> QRect" where
  "translated r p = QRect (rx1 r + fst p) (ry1 r + snd p) (rx2 r + fst p) (ry2 r + snd p)"

definition united :: "QRect \<Rightarrow> QRect \<Rightarrow> QRect" where
  "united a b =
     (if isNull a then b
      else if isNull b then a
      else
        (let l1 = (if rx2 a - rx1 a + 1 < 0 then rx2 a else rx1 a);
             r1 = (if rx2 a - rx1 a + 1 < 0 then rx1 a else rx2 a);
             t1 = (if ry2 a - ry1 a + 1 < 0 then ry2 a else ry1 a);
             b1 = (if ry2 a - ry1 a + 1 < 0 then ry1 a else ry2 a);
             l2 = (if rx2 b - rx1 b + 1 < 0 then rx2 b else rx1 b);
             r2 = (if rx2 b - rx1 b + 1 < 0 then rx1 b else rx2 b);
             t2 = (if ry2 b - ry1 b + 1 < 0 then ry2 b else ry1 b);
             b2 = (if ry2 b - ry1 b + 1 < 0 then ry1 b else ry2 b)
         in QRect (min l1 l2) (min t1 t2) (max r1 r2) (max b1 b2)))"

subsection \<open>Items and the scene's item store\<close>

text \<open>
  Items are heap objects that point at each other (parent, children, signal connections), so
  they live in a store indexed by an item identifier. An \<^verbatim>\<open>Item\<close> has the fields of
  item.h; \<open>receivers\<close> lists the items whose \<^verbatim>\<open>updateBoundingRect\<close> slot is connected
  to this item's \<^verbatim>\<open>xChanged\<close>, \<^verbatim>\<open>yChanged\<close> and \<^verbatim>\<open>boundingRectChanged\<close> signals
  (\<^verbatim>\<open>addChild\<close> makes the three connections together and \<^verbatim>\<open>removeChild\<close> removes
  them together), in connection order.
\<close>

type_synonym item_id = nat

record Item =
  m_window :: nat
  m_parentItem :: "item_id option"
  m_childItems :: "item_id list"
  m_boundingRect :: QRect
  m_x :: int
  m_y :: int
  m_width :: int
  m_implicitWidth :: int
  m_height :: int
  m_implicitHeight :: int
  m_widthValid :: bool
  m_heightValid :: bool
  receivers :: "item_id list"

text \<open>A freshly constructed item without a parent (the member initialisers of item.h).\<close>

definition Item_new :: "nat \<Rightarrow> Item" where
  "Item_new w = \<lparr>m_window = w, m_parentItem = None, m_childItems = [], m_boundingRect = QRect_default,
     m_x = 0, m_y = 0, m_width = 0, m_implicitWidth = 0, m_height = 0, m_implicitHeight = 0,
     m_widthValid = False, m_heightValid = False, receivers = []\<rparr>"

text \<open>
  What the item code asks of its owning window record: \<^verbatim>\<open>window()->addLayerRepaint(region)\<close>
  with the region in global coordinates, and \<^verbatim>\<open>window()->discardQuads()\<close>. The calls
  are logged in order, each with the window.
\<close>

datatype window_call = AddLayerRepaint nat QRect | DiscardQuads nat

record item_store =
  items :: "item_id \<Rightarrow> Item"
  window_calls :: "window_call list"

text \<open>
  An operation either returns, or aborts on a failed \<^verbatim>\<open>Q_ASSERT\<close> (debug builds only),
  or does not return: the parent walk of \<^verbatim>\<open>rootPosition\<close> and the chain of
  \<^verbatim>\<open>boundingRectChanged\<close> notifications are bounded by the shape of the item graph only,
  and are given fuel here.
\<close>

datatype 'a outcome = Returns 'a | Aborts | OutOfFuel

fun and_then :: "'a outcome \<Rightarrow> ('a \<Rightarrow> 'b outcome) \<Rightarrow> 'b outcome" where
  "and_then (Returns a) f = f a"
| "and_then Aborts f = Aborts"
| "and_then OutOfFuel f = OutOfFuel"

definition item_width :: "Item \<Rightarrow> int" where
  "item_width it = (if m_widthValid it then m_width it else m_implicitWidth it)"

definition item_height :: "Item \<Rightarrow> int" where
  "item_height it = (if m_heightValid it then m_height it else m_implicitHeight it)"

definition position :: "Item \<Rightarrow> int \<times> int" where
  "position it = (m_x it, m_y it)"

definition rect :: "Item \<Rightarrow> QRect" where
  "rect it = QRect_at (0, 0) (item_width it, item_height it)"

definition boundingRect :: "Item \<Rightarrow> QRect" where
  "boundingRect it = m_boundingRect it"

text \<open>
  \<^verbatim>\<open>Item::rootPosition\<close>: the loop \<^verbatim>\<open>while (parent) { ret += parent->position();
  parent = parent->parentItem(); }\<close>.
\<close>

fun rootPositionLoop :: "nat \<Rightarrow> (item_id \<Rightarrow> Item) \<Rightarrow> int \<times> int \<Rightarrow> item_id option \<Rightarrow> (int \<times> int) outcome" where
  "rootPositionLoop fuel its ret None = Returns ret"
| "rootPositionLoop 0 its ret (Some p) = OutOfFuel"
| "rootPositionLoop (Suc fuel) its ret (Some p) =
     rootPositionLoop fuel its (fst ret + m_x (its p), snd ret + m_y (its p)) (m_parentItem (its p))"

definition rootPosition :: "nat \<Rightarrow> (item_id \<Rightarrow> Item) \<Rightarrow> item_id \<Rightarrow> (int \<times> int) outcome" where
  "rootPosition fuel its i = rootPositionLoop fuel its (position (its i)) (m_parentItem (its i))"

text \<open>\<^verbatim>\<open>Item::scheduleRepaint(region)\<close>: \<^verbatim>\<open>window()->addLayerRepaint(mapToGlobal(region))\<close>.\<close>

definition scheduleRepaint :: "nat \<Rightarrow> item_id \<Rightarrow> QRect \<Rightarrow> item_store \<Rightarrow> item_store outcome" where
  "scheduleRepaint fuel i r s =
     and_then (rootPosition fuel (items s) i)
       (\<lambda>g. Returns (s\<lparr>window_calls := window_calls s @ [AddLayerRepaint (m_window (items s i)) (translated r g)]\<rparr>))"

definition discardQuads :: "item_id \<Rightarrow> item_store \<Rightarrow> item_store" where
  "discardQuads i s = s\<lparr>window_calls := window_calls s @ [DiscardQuads (m_window (items s i))]\<rparr>"

text \<open>
  The rectangle that \<^verbatim>\<open>Item::updateBoundingRect\<close> computes: \<^verbatim>\<open>rect()\<close>, then
  \<^verbatim>\<open>boundingRect |= item->boundingRect().translated(item->position())\<close> for every child
  in list order.
\<close>

definition childrenBoundingRect :: "(item_id \<Rightarrow> Item) \<Rightarrow> item_id \<Rightarrow> QRect" where
  "childrenBoundingRect its i =
     foldl (\<lambda>br c. united br (translated (boundingRect (its c)) (position (its c))))
       (rect (its i)) (m_childItems (its i))"

definition set_boundingRect :: "item_id \<Rightarrow> QRect \<Rightarrow> item_store \<Rightarrow> item_store" where
  "set_boundingRect i br s = s\<lparr>items := (items s)(i := (items s i)\<lparr>m_boundingRect := br\<rparr>)\<rparr>"

text \<open>
  \<^verbatim>\<open>Item::updateBoundingRect\<close>. When the rectangle changes, \<^verbatim>\<open>boundingRectChanged\<close>
  is emitted, which runs the connected \<^verbatim>\<open>updateBoundingRect\<close> slots one after the other.
\<close>

fun updateBoundingRect :: "nat \<Rightarrow> item_id \<Rightarrow> item_store \<Rightarrow> item_store outcome" where
  "updateBoundingRect 0 i s = OutOfFuel"
| "updateBoundingRect (Suc fuel) i s =
     (let br = childrenBoundingRect (items s) i in
      if m_boundingRect (items s i) \<noteq> br
      then foldl (\<lambda>acc r. and_then acc (updateBoundingRect fuel r))
             (Returns (set_boundingRect i br s)) (receivers (items s i))
      else Returns s)"

text \<open>
  Emitting \<^verbatim>\<open>xChanged\<close> or \<^verbatim>\<open>yChanged\<close> runs the same slots. (\<^verbatim>\<open>widthChanged\<close> and
  \<^verbatim>\<open>heightChanged\<close> have no receiver in the item code.)
\<close>

definition emit_positionChanged :: "nat \<Rightarrow> item_id \<Rightarrow> item_store \<Rightarrow> item_store outcome" where
  "emit_positionChanged fuel i s =
     foldl (\<lambda>acc r. and_then acc (updateBoundingRect fuel r)) (Returns s) (receivers (items s i))"

definition upd_item :: "item_id \<Rightarrow> (Item \<Rightarrow> Item) \<Rightarrow> item_store \<Rightarrow> item_store" where
  "upd_item i f s = s\<lparr>items := (items s)(i := f (items s i))\<rparr>"


subsection \<open>Geometry setters\<close>

text \<open>\<^verbatim>\<open>Item::setX\<close>, \<^verbatim>\<open>Item::setY\<close> and \<^verbatim>\<open>Item::setPosition\<close>.\<close>

definition setX :: "nat \<Rightarrow> item_id \<Rightarrow> int \<Rightarrow> item_store \<Rightarrow> item_store outcome" where
  "setX fuel i x s =
     (if m_x (items s i) = x then Returns s
      else
        and_then (scheduleRepaint fuel i (boundingRect (items s i)) s) (\<lambda>s1.
        let s2 = upd_item i (\<lambda>it. it\<lparr>m_x := x\<rparr>) s1 in
        and_then (scheduleRepaint fuel i (boundingRect (items s2 i)) s2) (\<lambda>s3.
        emit_positionChanged fuel i (discardQuads i s3))))"

definition setY :: "nat \<Rightarrow> item_id \<Rightarrow> int \<Rightarrow> item_store \<Rightarrow> item_store outcome" where
  "setY fuel i y s =
     (if m_y (items s i) = y then Returns s
      else
        and_then (scheduleRepaint fuel i (boundingRect (items s i)) s) (\<lambda>s1.
        let s2 = upd_item i (\<lambda>it. it\<lparr>m_y := y\<rparr>) s1 in
        and_then (scheduleRepaint fuel i (boundingRect (items s2 i)) s2) (\<lambda>s3.
        emit_positionChanged fuel i (discardQuads i s3))))"

definition setPosition :: "nat \<Rightarrow> item_id \<Rightarrow> int \<times> int \<Rightarrow> item_store \<Rightarrow> item_store outcome" where
  "setPosition fuel i point s =
     (let xDirty = (m_x (items s i) \<noteq> fst point);
          yDirty = (m_y (items s i) \<noteq> snd point)
      in if xDirty \<or> yDirty then
           and_then (scheduleRepaint fuel i (boundingRect (items s i)) s) (\<lambda>s1.
           let s2 = upd_item i (\<lambda>it. it\<lparr>m_x := fst point, m_y := snd point\<rparr>) s1 in
           and_then (scheduleRepaint fuel i (boundingRect (items s2 i)) s2) (\<lambda>s3.
           let s4 = discardQuads i s3 in
           and_then (if xDirty then emit_positionChanged fuel i s4 else Returns s4) (\<lambda>s5.
           if yDirty then emit_positionChanged fuel i s5 else Returns s5)))
         else Returns (upd_item i (\<lambda>it. it\<lparr>m_x := fst point, m_y := snd point\<rparr>) s))"

text \<open>
  The size setters share one shape: repaint the old \<^verbatim>\<open>rect()\<close>, store the fields,
  \<^verbatim>\<open>updateBoundingRect()\<close>, repaint the new \<^verbatim>\<open>rect()\<close>, \<^verbatim>\<open>discardQuads()\<close>.
\<close>

definition resize_with :: "nat \<Rightarrow> item_id \<Rightarrow> (Item \<Rightarrow> Item) \<Rightarrow> item_store \<Rightarrow> item_store outcome" where
  "resize_with fuel i f s =
     and_then (scheduleRepaint fuel i (rect (items s i)) s) (\<lambda>s1.
     let s2 = upd_item i f s1 in
     and_then (updateBoundingRect fuel i s2) (\<lambda>s3.
     and_then (scheduleRepaint fuel i (rect (items s3 i)) s3) (\<lambda>s4.
     Returns (discardQuads i s4))))"

definition setWidth :: "nat \<Rightarrow> item_id \<Rightarrow> int \<Rightarrow> item_store \<Rightarrow> item_store outcome" where
  "setWidth fuel i width s =
     (if m_widthValid (items s i) \<and> m_width (items s i) = width then Returns s
      else resize_with fuel i (\<lambda>it. it\<lparr>m_widthValid := True, m_width := width\<rparr>) s)"

definition setHeight :: "nat \<Rightarrow> item_id \<Rightarrow> int \<Rightarrow> item_store \<Rightarrow> item_store outcome" where
  "setHeight fuel i height s =
     (if m_heightValid (items s i) \<and> m_height (items s i) = height then Returns s
      else resize_with fuel i (\<lambda>it. it\<lparr>m_heightValid := True, m_height := height\<rparr>) s)"

definition setImplicitWidth :: "nat \<Rightarrow> item_id \<Rightarrow> int \<Rightarrow> item_store \<Rightarrow> item_store outcome" where
  "setImplicitWidth fuel i width s =
     (if m_implicitWidth (items s i) = width then Returns s
      else if m_widthValid (items s i) then Returns (upd_item i (\<lambda>it. it\<lparr>m_implicitWidth := width\<rparr>) s)
      else resize_with fuel i (\<lambda>it. it\<lparr>m_implicitWidth := width\<rparr>) s)"

definition setImplicitHeight :: "nat \<Rightarrow> item_id \<Rightarrow> int \<Rightarrow> item_store \<Rightarrow> item_store outcome" where
  "setImplicitHeight fuel i height s =
     (if m_implicitHeight (items s i) = height then Returns s
      else if m_heightValid (items s i) then Returns (upd_item i (\<lambda>it. it\<lparr>m_implicitHeight := height\<rparr>) s)
      else resize_with fuel i (\<lambda>it. it\<lparr>m_implicitHeight := height\<rparr>) s)"

definition setImplicitSize :: "nat \<Rightarrow> item_id \<Rightarrow> int \<times> int \<Rightarrow> item_store \<Rightarrow> item_store outcome" where
  "setImplicitSize fuel i sz s =
     (let widthDirty = (m_implicitWidth (items s i) \<noteq> fst sz \<and> \<not> m_widthValid (items s i));
          heightDirty = (m_implicitHeight (items s i) \<noteq> snd sz \<and> \<not> m_heightValid (items s i))
      in if widthDirty \<or> heightDirty
         then resize_with fuel i (\<lambda>it. it\<lparr>m_implicitWidth := fst sz, m_implicitHeight := snd sz\<rparr>) s
         else Returns (upd_item i (\<lambda>it. it\<lparr>m_implicitWidth := fst sz, m_implicitHeight := snd sz\<rparr>) s))"

definition setSize :: "nat \<Rightarrow> item_id \<Rightarrow> int \<times> int \<Rightarrow> item_store \<Rightarrow> item_store outcome" where
  "setSize fuel i sz s =
     (let widthDirty = (item_width (items s i) \<noteq> fst sz);
          heightDirty = (item_height (items s i) \<noteq> snd sz)
      in if widthDirty \<or> heightDirty
         then resize_with fuel i
                (\<lambda>it. it\<lparr>m_width := fst sz, m_widthValid := True, m_height := snd sz, m_heightValid := True\<rparr>) s
         else Returns (upd_item i
                (\<lambda>it. it\<lparr>m_width := fst sz, m_widthValid := True, m_height := snd sz, m_heightValid := True\<rparr>) s))"

text \<open>
  \<^verbatim>\<open>Item::resetWidth\<close> and \<^verbatim>\<open>Item::resetHeight\<close>: the explicit size is marked
  invalid, then \<^verbatim>\<open>setImplicitWidth(implicitWidth())\<close> (\<^verbatim>\<open>setImplicitHeight(implicitHeight())\<close>)
  is called with the value the item already holds.
\<close>

definition resetWidth :: "nat \<Rightarrow> item_id \<Rightarrow> item_store \<Rightarrow> item_store outcome" where
  "resetWidth fuel i s =
     (let s1 = upd_item i (\<lambda>it. it\<lparr>m_widthValid := False\<rparr>) s
      in setImplicitWidth fuel i (m_implicitWidth (items s1 i)) s1)"

definition resetHeight :: "nat \<Rightarrow> item_id \<Rightarrow> item_store \<Rightarrow> item_store outcome" where
  "resetHeight fuel i s =
     (let s1 = upd_item i (\<lambda>it. it\<lparr>m_heightValid := False\<rparr>) s
      in setImplicitHeight fuel i (m_implicitHeight (items s1 i)) s1)"

subsection \<open>Parent and children\<close>

text \<open>
  \<^verbatim>\<open>Item::addChild\<close> and \<^verbatim>\<open>Item::removeChild\<close> (private; only
  \<^verbatim>\<open>setParentItem\<close> calls them). \<open>dbg\<close> tells whether \<^verbatim>\<open>Q_ASSERT\<close> is compiled in.
  \<^verbatim>\<open>removeOne\<close> removes the first occurrence; \<^verbatim>\<open>disconnect\<close> removes every connection
  of the three signals to the parent's slot.
\<close>

definition addChild :: "bool \<Rightarrow> nat \<Rightarrow> item_id \<Rightarrow> item_id \<Rightarrow> item_store \<Rightarrow> item_store outcome" where
  "addChild dbg fuel this item s =
     (if dbg \<and> item \<in> set (m_childItems (items s this)) then Aborts
      else
        (let s1 = upd_item item (\<lambda>it. it\<lparr>receivers := receivers it @ [this]\<rparr>) s;
             s2 = upd_item this (\<lambda>it. it\<lparr>m_childItems := m_childItems it @ [item]\<rparr>) s1
         in and_then (updateBoundingRect fuel this s2) (\<lambda>s3.
            and_then (scheduleRepaint fuel this
                        (translated (boundingRect (items s3 item)) (position (items s3 item))) s3) (\<lambda>s4.
            Returns (discardQuads this s4)))))"

definition removeChild :: "bool \<Rightarrow> nat \<Rightarrow> item_id \<Rightarrow> item_id \<Rightarrow> item_store \<Rightarrow> item_store outcome" where
  "removeChild dbg fuel this item s =
     (if dbg \<and> item \<notin> set (m_childItems (items s this)) then Aborts
      else
        and_then (scheduleRepaint fuel this
                    (translated (boundingRect (items s item)) (position (items s item))) s) (\<lambda>s1.
        let s2 = upd_item this (\<lambda>it. it\<lparr>m_childItems := remove1 item (m_childItems it)\<rparr>) s1;
            s3 = upd_item item (\<lambda>it. it\<lparr>receivers := removeAll this (receivers it)\<rparr>) s2
        in and_then (updateBoundingRect fuel this s3) (\<lambda>s4.
           Returns (discardQuads this s4))))"

text \<open>\<^verbatim>\<open>Item::setParentItem\<close>.\<close>

definition setParentItem :: "bool \<Rightarrow> nat \<Rightarrow> item_id \<Rightarrow> item_id option \<Rightarrow> item_store \<Rightarrow> item_store outcome" where
  "setParentItem dbg fuel this item s =
     (if m_parentItem (items s this) = item then Returns s
      else
        and_then (case m_parentItem (items s this) of
                    Some old \<Rightarrow> removeChild dbg fuel old this s
                  | None \<Rightarrow> Returns s) (\<lambda>s1.
        let s2 = upd_item this (\<lambda>it. it\<lparr>m_parentItem := item\<rparr>) s1 in
        case item of
          Some new \<Rightarrow> addChild dbg fuel new this s2
        | None \<Rightarrow> Returns s2))"

text \<open>
  \<^verbatim>\<open>Item::stackChildren\<close>. The loop that asserts \<^verbatim>\<open>item->parentItem() == this\<close> for
  every element of the list exists in debug builds only.
\<close>

definition stackChildren :: "bool \<Rightarrow> item_id \<Rightarrow> item_id list \<Rightarrow> item_store \<Rightarrow> item_store outcome" where
  "stackChildren dbg this children s =
     (if length (m_childItems (items s this)) \<noteq> length children then Returns s
      else if dbg \<and> \<not> list_all (\<lambda>item. m_parentItem (items s item) = Some this) children then Aborts
      else Returns (discardQuads this (upd_item this (\<lambda>it. it\<lparr>m_childItems := children\<rparr>) s)))"

subsection \<open>Sequences of operations\<close>

datatype item_op =
    SetX item_id int
  | SetY item_id int
  | SetPosition item_id "int \<times> int"
  | SetWidth item_id int
  | SetHeight item_id int
  | SetSize item_id "int \<times> int"
  | SetImplicitWidth item_id int
  | SetImplicitHeight item_id int
  | SetImplicitSize item_id "int \<times> int"
  | SetParentItem item_id "item_id option"

fun apply_op :: "bool \<Rightarrow> nat \<Rightarrow> item_op \<Rightarrow> item_store \<Rightarrow> item_store outcome" where
  "apply_op dbg fuel (SetX i x) s = setX fuel i x s"
| "apply_op dbg fuel (SetY i y) s = setY fuel i y s"
| "apply_op dbg fuel (SetPosition i p) s = setPosition fuel i p s"
| "apply_op dbg fuel (SetWidth i w) s = setWidth fuel i w s"
| "apply_op dbg fuel (SetHeight i h) s = setHeight fuel i h s"
| "apply_op dbg fuel (SetSize i sz) s = setSize fuel i sz s"
| "apply_op dbg fuel (SetImplicitWidth i w) s = setImplicitWidth fuel i w s"
| "apply_op dbg fuel (SetImplicitHeight i h) s = setImplicitHeight fuel i h s"
| "apply_op dbg fuel (SetImplicitSize i sz) s = setImplicitSize fuel i sz s"
| "apply_op dbg fuel (SetParentItem i p) s = setParentItem dbg fuel i p s"

fun apply_ops :: "bool \<Rightarrow> nat \<Rightarrow> item_op list \<Rightarrow> item_store \<Rightarrow> item_store outcome" where
  "apply_ops dbg fuel [] s = Returns s"
| "apply_ops dbg fuel (a # as) s = and_then (apply_op dbg fuel a s) (apply_ops dbg fuel as)"


subsection \<open>Item trees and the bounding-rect invariant\<close>

text \<open>
  \<open>depth_lt par n i\<close>: following the parent pointers \<open>par\<close> from item \<open>i\<close> reaches an
  item without parent in fewer than \<open>n\<close> steps. When every item satisfies it the parent
  pointers have no cycle: the items are a forest of trees of height below \<open>n\<close>.
\<close>

fun depth_lt :: "(item_id \<Rightarrow> item_id option) \<Rightarrow> nat \<Rightarrow> item_id \<Rightarrow> bool" where
  "depth_lt par 0 i = False"
| "depth_lt par (Suc n) i = (case par i of None \<Rightarrow> True | Some p \<Rightarrow> depth_lt par n p)"

definition forest :: "(item_id \<Rightarrow> item_id option) \<Rightarrow> nat \<Rightarrow> bool" where
  "forest par n = (\<forall>i. depth_lt par n i)"

definition parents :: "(item_id \<Rightarrow> Item) \<Rightarrow> item_id \<Rightarrow> item_id option" where
  "parents its = (\<lambda>i. m_parentItem (its i))"

text \<open>
  The links of a store built by \<^verbatim>\<open>setParentItem\<close>: parent pointers and child lists
  agree, no child is listed twice, and an item's signals are connected to its parent only.
\<close>

definition children_have_parent :: "(item_id \<Rightarrow> Item) \<Rightarrow> bool" where
  "children_have_parent its = (\<forall>p c. c \<in> set (m_childItems (its p)) \<longrightarrow> m_parentItem (its c) = Some p)"

definition parent_has_child :: "(item_id \<Rightarrow> Item) \<Rightarrow> bool" where
  "parent_has_child its = (\<forall>c p. m_parentItem (its c) = Some p \<longrightarrow> c \<in> set (m_childItems (its p)))"

definition receivers_ok :: "(item_id \<Rightarrow> Item) \<Rightarrow> bool" where
  "receivers_ok its =
     (\<forall>i. receivers (its i) =
        (case m_parentItem (its i) of
           None \<Rightarrow> []
         | Some p \<Rightarrow> if i \<in> set (m_childItems (its p)) then [p] else []))"

definition item_links :: "(item_id \<Rightarrow> Item) \<Rightarrow> bool" where
  "item_links its =
     (children_have_parent its \<and> parent_has_child its \<and> receivers_ok its
      \<and> (\<forall>p. distinct (m_childItems (its p))))"

text \<open>
  The invariant: every item's stored bounding rect is its own rect united with each child's
  bounding rect translated by that child's position.
\<close>

definition rect_ok :: "(item_id \<Rightarrow> Item) \<Rightarrow> item_id \<Rightarrow> bool" where
  "rect_ok its i = (boundingRect (its i) = childrenBoundingRect its i)"

definition boundingRects_ok :: "(item_id \<Rightarrow> Item) \<Rightarrow> bool" where
  "boundingRects_ok its = (\<forall>i. rect_ok its i)"

text \<open>
  The parent pointers after an operation; only \<^verbatim>\<open>setParentItem\<close> changes them. A sequence
  of operations keeps the items a forest of height below \<open>n\<close> when every parent map along
  the way does.
\<close>

fun parents_after :: "item_op \<Rightarrow> (item_id \<Rightarrow> item_id option) \<Rightarrow> (item_id \<Rightarrow> item_id option)" where
  "parents_after (SetParentItem i p) par = par(i := p)"
| "parents_after _ par = par"

fun stays_forest :: "nat \<Rightarrow> item_op list \<Rightarrow> (item_id \<Rightarrow> item_id option) \<Rightarrow> bool" where
  "stays_forest n [] par = forest par n"
| "stays_forest n (a # as) par = (forest par n \<and> stays_forest n as (parents_after a par))"

text \<open>A store in which every item is freshly constructed (for window 0) and has no parent.\<close>

definition empty_store :: item_store where
  "empty_store = \<lparr>items = (\<lambda>i. Item_new 0), window_calls = []\<rparr>"


subsection \<open>Auxiliary notions for the proofs about items\<close>

text \<open>An operation returns, in a state that satisfies \<open>P\<close>.\<close>

definition returns_with :: "'a outcome \<Rightarrow> ('a \<Rightarrow> bool) \<Rightarrow> bool" where
  "returns_with m P = (case m of Returns a \<Rightarrow> P a | _ \<Rightarrow> False)"

text \<open>Two stores that differ in stored bounding rects only.\<close>

definition only_rects :: "(item_id \<Rightarrow> Item) \<Rightarrow> (item_id \<Rightarrow> Item) \<Rightarrow> bool" where
  "only_rects its its' = (\<forall>j. \<exists>br. its' j = (its j)\<lparr>m_boundingRect := br\<rparr>)"

text \<open>Two stores with the same parent pointers, child lists and connections.\<close>

definition same_links :: "(item_id \<Rightarrow> Item) \<Rightarrow> (item_id \<Rightarrow> Item) \<Rightarrow> bool" where
  "same_links its its' =
     (\<forall>j. m_parentItem (its' j) = m_parentItem (its j)
          \<and> m_childItems (its' j) = m_childItems (its j)
          \<and> receivers (its' j) = receivers (its j))"

text \<open>A field update that leaves the links and the stored bounding rect alone.\<close>

definition keeps_links :: "(Item \<Rightarrow> Item) \<Rightarrow> bool" where
  "keeps_links f =
     (\<forall>it. m_parentItem (f it) = m_parentItem it \<and> m_childItems (f it) = m_childItems it
          \<and> receivers (f it) = receivers it \<and> m_boundingRect (f it) = m_boundingRect it)"

text \<open>What the geometry setters keep: the links and the invariant.\<close>

definition kept :: "nat \<Rightarrow> (item_id \<Rightarrow> Item) \<Rightarrow> item_store \<Rightarrow> bool" where
  "kept fuel its s' = (same_links its (items s') \<and> boundingRects_ok (items s'))"

text \<open>
  The store between the two halves of \<^verbatim>\<open>setParentItem\<close>: item \<open>c\<close> is in no child
  list and is connected to nobody; everything else is linked as usual.
\<close>

definition loose :: "item_id \<Rightarrow> (item_id \<Rightarrow> Item) \<Rightarrow> bool" where
  "loose c its =
     (children_have_parent its \<and> receivers_ok its \<and> (\<forall>p. distinct (m_childItems (its p)))
      \<and> (\<forall>j. c \<notin> set (m_childItems (its j)))
      \<and> (\<forall>d p. d \<noteq> c \<longrightarrow> m_parentItem (its d) = Some p \<longrightarrow> d \<in> set (m_childItems (its p))))"

definition detached :: "item_id \<Rightarrow> (item_id \<Rightarrow> Item) \<Rightarrow> bool" where
  "detached c its = (loose c its \<and> boundingRects_ok its)"

section \<open>Output presentation state machine\<close>

text \<open>
  \<^verbatim>\<open>DrmOutput\<close> (drm_output.cpp): the in-memory state of one output, the replies of the
  kernel and of the other objects it talks to, and a log of the calls that leave it.
\<close>

datatype DpmsMode = DpmsOn | DpmsStandby | DpmsSuspend | DpmsOff

datatype AtomicCommitMode = AtomicTest | AtomicReal

datatype Transform =
  Normal | Rotated90 | Rotated180 | Rotated270 | Flipped | Flipped90 | Flipped180 | Flipped270

datatype PlaneTransformation = Rotate0 | Rotate90 | Rotate180 | Rotate270

type_synonym drm_buffer = nat

text \<open>
  A mode (\<^verbatim>\<open>drmModeModeInfo\<close>) is only stored, handed on and compared field by field
  (\<^verbatim>\<open>isCurrentMode\<close>); it is identified by a number here, equal numbers for equal fields.
\<close>

type_synonym drm_mode = nat

text \<open>
  A plane (\<^verbatim>\<open>DrmPlane\<close>): its current and next buffer, its transformation and the set of
  transformations the hardware supports.
\<close>

record DrmPlane =
  plane_current :: "drm_buffer option"
  plane_next :: "drm_buffer option"
  plane_transformation :: PlaneTransformation
  plane_supportedTransformations :: "PlaneTransformation set"

text \<open>\<^verbatim>\<open>m_lastWorkingState\<close>: the snapshot taken after the last successful mode set.\<close>

record LastWorkingState =
  lws_valid :: bool
  lws_mode :: drm_mode
  lws_transform :: Transform
  lws_globalPos :: "int \<times> int"
  lws_planeTransformations :: PlaneTransformation

text \<open>
  Calls that leave the output. An atomic commit is logged when \<^verbatim>\<open>drmModeAtomicCommit\<close>
  is called, with its mode (test or real), whether it allows a mode set, the DPMS mode it
  carries (\<^verbatim>\<open>m_dpmsModePending\<close>), and whether the kernel accepted it.
\<close>

datatype drm_call =
    AtomicCommit AtomicCommitMode bool DpmsMode bool
  | LegacySetDpms DpmsMode bool
  | LegacySetCrtc drm_buffer bool
  | LegacyPageFlip drm_buffer bool
  | WaylandSetDpmsMode DpmsMode
  | WaylandSetMode drm_mode
  | EnableOutput bool
  | CheckOutputsAreOn
  | CreateDpmsFilter
  | CrtcBlank
  | RenderLoopInhibit
  | RenderLoopUninhibit
  | RenderLoopSetRefreshRate drm_mode
  | AddRepaintFull
  | ScreensChanged
  | ReleaseGbm drm_buffer
  | DeleteLater

record DrmOutput =
  gpu_atomicModeSetting :: bool
  gpu_deleteBufferAfterPageFlip :: bool
  gpu_useEglStreams :: bool
  has_dpms :: bool
  isEnabled :: bool
  has_crtc :: bool
  m_deleted :: bool
  m_primaryPlane :: "DrmPlane option"
  m_nextPlanesFlipList :: "unit list"
  crtc_current :: "drm_buffer option"
  crtc_next :: "drm_buffer option"
  m_mode :: drm_mode
  transform :: Transform
  globalPos :: "int \<times> int"
  m_lastWorkingState :: LastWorkingState
  m_modesetRequested :: bool
  m_pageFlipPending :: bool
  m_atomicOffPending :: bool
  m_dpmsMode :: DpmsMode
  m_dpmsModePending :: DpmsMode
  drm_calls :: "drm_call list"

text \<open>
  The fields not taken from drm_output.cpp: \<open>gpu_*\<close> are what \<^verbatim>\<open>m_gpu\<close> answers
  (\<open>gpu_useEglStreams\<close> is false in a build without \<^verbatim>\<open>HAVE_EGL_STREAMS\<close>);
  \<open>has_dpms\<close> is \<^verbatim>\<open>!m_dpms.isNull()\<close>; \<open>has_crtc\<close> is \<^verbatim>\<open>m_crtc != nullptr\<close>;
  \<open>crtc_current\<close> and \<open>crtc_next\<close> are the buffers of \<^verbatim>\<open>m_crtc\<close>;
  \<open>isEnabled\<close>, \<open>transform\<close> and \<open>globalPos\<close> are kept by the base class
  \<^verbatim>\<open>AbstractWaylandOutput\<close>. \<^verbatim>\<open>m_nextPlanesFlipList\<close> only ever holds pointers to the
  primary plane, so an entry carries no data. The cursor buffers are left out: the cursor
  functions touch no field listed here.

  The replies of the outside world during one call into the output: the session, the
  kernel (one reply per kind of request and commit mode), the connector's mode list, the
  backend's cursor settings, the environment variable \<^verbatim>\<open>KWIN_DRM_SW_ROTATIONS_ONLY\<close>, what
  \<^verbatim>\<open>DrmCrtc::blank\<close> does to the CRTC's two buffers, and whether \<^verbatim>\<open>Q_ASSERT\<close> is
  compiled in.
\<close>

record drm_env =
  session_isActive :: bool
  atomicAlloc_ok :: "AtomicCommitMode \<Rightarrow> bool"
  createPropertyBlob_ok :: "AtomicCommitMode \<Rightarrow> bool"
  connCrtcPopulate_ok :: "AtomicCommitMode \<Rightarrow> bool"
  planePopulate_ok :: "AtomicCommitMode \<Rightarrow> bool"
  atomicCommit_ok :: "AtomicCommitMode \<Rightarrow> bool"
  connectorSetProperty_ok :: bool
  setCrtc_ok :: bool
  pageFlip_ok :: bool
  needsModeChange :: bool
  isCursorHidden :: bool
  usesSoftwareCursor :: bool
  swRotationsOnly :: bool
  connector_modes :: "drm_mode list"
  crtc_blank :: "drm_buffer option \<times> drm_buffer option \<Rightarrow> drm_buffer option \<times> drm_buffer option"
  q_assert :: bool

definition call :: "drm_call \<Rightarrow> DrmOutput \<Rightarrow> DrmOutput" where
  "call c s = s\<lparr>drm_calls := drm_calls s @ [c]\<rparr>"

text \<open>A dereference of \<^verbatim>\<open>m_primaryPlane\<close>: a null pointer ends the program.\<close>

definition with_plane :: "DrmOutput \<Rightarrow> (DrmPlane \<Rightarrow> 'a outcome) \<Rightarrow> 'a outcome" where
  "with_plane s f = (case m_primaryPlane s of None \<Rightarrow> Aborts | Some p \<Rightarrow> f p)"

definition set_plane :: "DrmPlane \<Rightarrow> DrmOutput \<Rightarrow> DrmOutput" where
  "set_plane p s = s\<lparr>m_primaryPlane := Some p\<rparr>"

text \<open>
  Modelled from the spec: \<^verbatim>\<open>DrmPlane::flipBuffer\<close>, \<^verbatim>\<open>DrmPlane::flipBufferWithDelete\<close>
  and \<^verbatim>\<open>DrmCrtc::flipBuffer\<close> are not among the sources. Page-flip completion
  ``promotes next to current'': the next buffer becomes the current one and the next slot
  is emptied (the variant with delete also frees the old current buffer, which is not
  state of this model).
\<close>

definition plane_flipBuffer :: "DrmPlane \<Rightarrow> DrmPlane" where
  "plane_flipBuffer p = p\<lparr>plane_current := plane_next p, plane_next := None\<rparr>"

definition crtc_flipBuffer :: "DrmOutput \<Rightarrow> DrmOutput" where
  "crtc_flipBuffer s = s\<lparr>crtc_current := crtc_next s, crtc_next := None\<rparr>"

text \<open>
  The loops \<^verbatim>\<open>for (DrmPlane *p : m_nextPlanesFlipList) p->flipBuffer();\<close>, followed by
  \<^verbatim>\<open>m_nextPlanesFlipList.clear()\<close>: every entry of the list flips the primary plane.
\<close>

fun flipPlanes :: "unit list \<Rightarrow> DrmPlane \<Rightarrow> DrmPlane" where
  "flipPlanes [] p = p"
| "flipPlanes (u # us) p = flipPlanes us (plane_flipBuffer p)"

definition flipListedPlanes :: "DrmOutput \<Rightarrow> DrmOutput" where
  "flipListedPlanes s =
     s\<lparr>m_primaryPlane := map_option (flipPlanes (m_nextPlanesFlipList s)) (m_primaryPlane s),
       m_nextPlanesFlipList := []\<rparr>"

subsection \<open>DPMS\<close>

text \<open>\<^verbatim>\<open>DrmOutput::dpmsFinishOn\<close> and \<^verbatim>\<open>DrmOutput::dpmsFinishOff\<close>.\<close>

definition dpmsFinishOn :: "drm_env \<Rightarrow> DrmOutput \<Rightarrow> DrmOutput outcome" where
  "dpmsFinishOn env s =
     (if \<not> has_crtc s then Aborts
      else
        (let s1 = call CheckOutputsAreOn (call (WaylandSetDpmsMode DpmsOn) s);
             bufs = crtc_blank env (crtc_current s1, crtc_next s1);
             s2 = call CrtcBlank (s1\<lparr>crtc_current := fst bufs, crtc_next := snd bufs\<rparr>)
         in Returns (call AddRepaintFull (call RenderLoopUninhibit s2))))"

definition dpmsFinishOff :: "DrmOutput \<Rightarrow> DrmOutput" where
  "dpmsFinishOff s =
     (let s1 = (if isEnabled s
                then call CreateDpmsFilter (call (WaylandSetDpmsMode (m_dpmsModePending s)) s)
                else call (WaylandSetDpmsMode DpmsOff) s)
      in call RenderLoopInhibit s1)"

text \<open>\<^verbatim>\<open>DrmOutput::dpmsLegacyApply\<close>.\<close>

definition dpmsLegacyApply :: "drm_env \<Rightarrow> DrmOutput \<Rightarrow> (bool \<times> DrmOutput) outcome" where
  "dpmsLegacyApply env s =
     (if \<not> has_dpms s then Aborts else
      let s0 = call (LegacySetDpms (m_dpmsModePending s) (connectorSetProperty_ok env)) s in
      if \<not> connectorSetProperty_ok env
      then Returns (False, s0\<lparr>m_dpmsModePending := m_dpmsMode s0\<rparr>)
      else
        and_then (if m_dpmsModePending s0 = DpmsOn then dpmsFinishOn env s0
                  else Returns (dpmsFinishOff s0)) (\<lambda>s1.
        Returns (True, s1\<lparr>m_dpmsMode := m_dpmsModePending s1\<rparr>)))"

subsection \<open>Atomic commits\<close>

text \<open>\<^verbatim>\<open>outputToPlaneTransform\<close> and \<^verbatim>\<open>DrmOutput::hardwareTransforms\<close>.\<close>

fun outputToPlaneTransform :: "Transform \<Rightarrow> PlaneTransformation" where
  "outputToPlaneTransform Normal = Rotate0"
| "outputToPlaneTransform Flipped = Rotate0"
| "outputToPlaneTransform Rotated90 = Rotate90"
| "outputToPlaneTransform Flipped90 = Rotate90"
| "outputToPlaneTransform Rotated180 = Rotate180"
| "outputToPlaneTransform Flipped180 = Rotate180"
| "outputToPlaneTransform Rotated270 = Rotate270"
| "outputToPlaneTransform Flipped270 = Rotate270"

text \<open>
  \<^verbatim>\<open>DrmOutput::atomicReqModesetPopulate\<close>. The property values it stores in the plane,
  the connector and the CRTC only feed the request; what remains in the output's state is
  that disabling empties both buffer slots of the primary plane. The result is that of
  \<^verbatim>\<open>m_conn->atomicPopulate(req)\<close> and \<^verbatim>\<open>m_crtc->atomicPopulate(req)\<close>.
\<close>

definition atomicReqModesetPopulate ::
  "drm_env \<Rightarrow> AtomicCommitMode \<Rightarrow> bool \<Rightarrow> DrmOutput \<Rightarrow> (bool \<times> DrmOutput) outcome" where
  "atomicReqModesetPopulate env mode enable s =
     (if \<not> has_crtc s then Aborts
      else with_plane s (\<lambda>p.
        let s1 = (if enable then s
                  else set_plane (p\<lparr>plane_current := None, plane_next := None\<rparr>) s)
        in Returns (connCrtcPopulate_ok env mode, s1)))"

text \<open>The \<^verbatim>\<open>errorHandler\<close> lambda of \<^verbatim>\<open>DrmOutput::doAtomicCommit\<close>.\<close>

definition errorHandler :: "DrmOutput \<Rightarrow> DrmOutput" where
  "errorHandler s =
     (let s1 = (if m_dpmsMode s \<noteq> m_dpmsModePending s
                then (let s' = s\<lparr>m_dpmsModePending := m_dpmsMode s\<rparr>
                      in if m_dpmsMode s' \<noteq> DpmsOn then dpmsFinishOff s' else s')
                else s);
          s2 = (if m_nextPlanesFlipList s1 = [] then s1
                else (case m_primaryPlane s1 of
                        None \<Rightarrow> s1
                      | Some p \<Rightarrow> set_plane (p\<lparr>plane_next := None\<rparr>) s1))
      in s2\<lparr>m_nextPlanesFlipList := []\<rparr>)"

text \<open>\<^verbatim>\<open>DrmOutput::doAtomicCommit\<close>.\<close>

definition doAtomicCommit :: "drm_env \<Rightarrow> AtomicCommitMode \<Rightarrow> DrmOutput \<Rightarrow> (bool \<times> DrmOutput) outcome" where
  "doAtomicCommit env mode s =
     (if \<not> atomicAlloc_ok env mode then Returns (False, errorHandler s)
      else if m_modesetRequested s \<and> m_dpmsModePending s = DpmsOn \<and> \<not> createPropertyBlob_ok env mode
      then Returns (False, errorHandler s)
      else
        and_then (if m_modesetRequested s
                  then atomicReqModesetPopulate env mode (m_dpmsModePending s = DpmsOn) s
                  else Returns (True, s)) (\<lambda>(populated, s1).
        if \<not> populated then Returns (False, errorHandler s1)
        else
          (let allowModeset = m_modesetRequested s1;
               ret = list_all (\<lambda>p. planePopulate_ok env mode) (m_nextPlanesFlipList s1)
           in if \<not> ret then Returns (False, errorHandler s1)
              else
                (let ok = atomicCommit_ok env mode;
                     s2 = call (AtomicCommit mode allowModeset (m_dpmsModePending s1) ok) s1
                 in if \<not> ok then Returns (False, errorHandler s2)
                    else if mode = AtomicReal \<and> allowModeset
                    then Returns (True, s2\<lparr>m_modesetRequested := False,
                                            m_dpmsMode := m_dpmsModePending s2\<rparr>)
                    else Returns (True, s2)))))"

text \<open>\<^verbatim>\<open>DrmOutput::dpmsAtomicOff\<close>.\<close>

definition dpmsAtomicOff :: "drm_env \<Rightarrow> DrmOutput \<Rightarrow> (bool \<times> DrmOutput) outcome" where
  "dpmsAtomicOff env s =
     (let s0 = s\<lparr>m_atomicOffPending := False\<rparr> in
      with_plane s0 (\<lambda>p.
        let s1 = set_plane (p\<lparr>plane_next := None\<rparr>) s0;
            s2 = s1\<lparr>m_nextPlanesFlipList := m_nextPlanesFlipList s1 @ [()]\<rparr>
        in and_then (doAtomicCommit env AtomicTest s2) (\<lambda>(ok, s3).
           if \<not> ok then Returns (False, s3)
           else and_then (doAtomicCommit env AtomicReal s3) (\<lambda>(ok', s4).
             if \<not> ok' then Returns (False, s4)
             else Returns (True, dpmsFinishOff (s4\<lparr>m_nextPlanesFlipList := []\<rparr>))))))"

subsection \<open>Enabling, DPMS requests, transform and mode changes\<close>

text \<open>\<^verbatim>\<open>DrmOutput::atomicEnable\<close>, \<^verbatim>\<open>DrmOutput::atomicDisable\<close> and
  \<^verbatim>\<open>DrmOutput::updateEnablement\<close>.\<close>

definition atomicEnable :: "drm_env \<Rightarrow> DrmOutput \<Rightarrow> DrmOutput outcome" where
  "atomicEnable env s =
     (let s1 = s\<lparr>m_modesetRequested := True\<rparr> in
      if m_atomicOffPending s1 \<and> q_assert env \<and> \<not> m_pageFlipPending s1 then Aborts
      else
        (let s2 = (if m_atomicOffPending s1 then s1\<lparr>m_atomicOffPending := False\<rparr> else s1)
         in Returns (call AddRepaintFull (call (EnableOutput True) s2))))"

definition atomicDisable :: "drm_env \<Rightarrow> DrmOutput \<Rightarrow> DrmOutput outcome" where
  "atomicDisable env s =
     (let s1 = s\<lparr>m_modesetRequested := True\<rparr>;
          s2 = (call (EnableOutput False) s1)\<lparr>m_atomicOffPending := True\<rparr>
      in if \<not> m_pageFlipPending s2
         then and_then (dpmsAtomicOff env s2) (\<lambda>(ok, s3). Returns s3)
         else Returns s2)"

definition updateEnablement :: "drm_env \<Rightarrow> bool \<Rightarrow> DrmOutput \<Rightarrow> DrmOutput outcome" where
  "updateEnablement env enable s =
     (if enable then
        (let s1 = s\<lparr>m_dpmsModePending := DpmsOn\<rparr> in
         if gpu_atomicModeSetting s1 then atomicEnable env s1
         else and_then (dpmsLegacyApply env s1) (\<lambda>(ok, s2).
                Returns (if ok then call (EnableOutput True) s2 else s2)))
      else
        (let s1 = s\<lparr>m_dpmsModePending := DpmsOff\<rparr> in
         if gpu_atomicModeSetting s1 then atomicDisable env s1
         else and_then (dpmsLegacyApply env s1) (\<lambda>(ok, s2).
                Returns (if ok then call (EnableOutput False) s2 else s2))))"

text \<open>\<^verbatim>\<open>DrmOutput::updateDpms\<close>; the argument is the mode after \<^verbatim>\<open>fromWaylandDpmsMode\<close>.\<close>

definition updateDpms :: "drm_env \<Rightarrow> DpmsMode \<Rightarrow> DrmOutput \<Rightarrow> DrmOutput outcome" where
  "updateDpms env drmMode s =
     (if \<not> has_dpms s \<or> \<not> isEnabled s then Returns s
      else if drmMode = m_dpmsModePending s then Returns (call (WaylandSetDpmsMode drmMode) s)
      else
        (let s1 = s\<lparr>m_dpmsModePending := drmMode\<rparr> in
         if gpu_atomicModeSetting s1 then
           (let s2 = s1\<lparr>m_modesetRequested := True\<rparr> in
            if drmMode = DpmsOn then
              (if m_atomicOffPending s2 \<and> q_assert env \<and> \<not> m_pageFlipPending s2 then Aborts
               else dpmsFinishOn env
                      (if m_atomicOffPending s2 then s2\<lparr>m_atomicOffPending := False\<rparr> else s2))
            else
              (let s3 = s2\<lparr>m_atomicOffPending := True\<rparr> in
               if \<not> m_pageFlipPending s3
               then and_then (dpmsAtomicOff env s3) (\<lambda>(ok, s4). Returns s4)
               else Returns s3))
         else and_then (dpmsLegacyApply env s1) (\<lambda>(ok, s2). Returns s2)))"

text \<open>\<^verbatim>\<open>DrmOutput::updateTransform\<close>.\<close>

definition updateTransform :: "drm_env \<Rightarrow> Transform \<Rightarrow> DrmOutput \<Rightarrow> DrmOutput" where
  "updateTransform env t s =
     (let planeTransform = outputToPlaneTransform t;
          s1 = (case m_primaryPlane s of
                  None \<Rightarrow> s
                | Some p \<Rightarrow>
                    (let isPortrait = (t = Rotated90 \<or> t = Flipped90 \<or> t = Rotated270 \<or> t = Flipped270)
                     in if \<not> swRotationsOnly env \<and> planeTransform \<in> plane_supportedTransformations p
                           \<and> \<not> isPortrait
                        then set_plane (p\<lparr>plane_transformation := planeTransform\<rparr>) s
                        else set_plane (p\<lparr>plane_transformation := Rotate0\<rparr>) s))
      in s1\<lparr>m_modesetRequested := True\<rparr>)"

text \<open>
  \<^verbatim>\<open>DrmOutput::setWaylandMode\<close>, \<^verbatim>\<open>DrmOutput::isCurrentMode\<close> and
  \<^verbatim>\<open>DrmOutput::updateMode(int modeIndex)\<close>. A negative index reads before the mode array.
\<close>

definition setWaylandMode :: "DrmOutput \<Rightarrow> DrmOutput" where
  "setWaylandMode s = call (WaylandSetMode (m_mode s)) s"

definition updateMode :: "drm_env \<Rightarrow> int \<Rightarrow> DrmOutput \<Rightarrow> DrmOutput outcome" where
  "updateMode env modeIndex s =
     (if int (length (connector_modes env)) \<le> modeIndex then Returns s
      else if modeIndex < 0 then Aborts
      else if connector_modes env ! nat modeIndex = m_mode s then Returns s
      else Returns (setWaylandMode (s\<lparr>m_mode := connector_modes env ! nat modeIndex,
                                      m_modesetRequested := True\<rparr>)))"

subsection \<open>Presenting a buffer\<close>

text \<open>\<^verbatim>\<open>DrmOutput::setModeLegacy\<close> and \<^verbatim>\<open>DrmOutput::presentLegacy\<close>.\<close>

definition setModeLegacy :: "drm_env \<Rightarrow> drm_buffer \<Rightarrow> DrmOutput \<Rightarrow> bool \<times> DrmOutput" where
  "setModeLegacy env buffer s = (setCrtc_ok env, call (LegacySetCrtc buffer (setCrtc_ok env)) s)"

definition presentLegacy :: "drm_env \<Rightarrow> drm_buffer \<Rightarrow> DrmOutput \<Rightarrow> (bool \<times> DrmOutput) outcome" where
  "presentLegacy env buffer s =
     (if \<not> has_crtc s then Aborts
      else if crtc_next s \<noteq> None then Returns (False, s)
      else if \<not> session_isActive env then Returns (False, s\<lparr>crtc_next := Some buffer\<rparr>)
      else
        (let (modeOk, s1) = (if crtc_current s = None \<or> needsModeChange env
                             then setModeLegacy env buffer s else (True, s))
         in if \<not> modeOk then Returns (False, s1)
            else
              (let ok = pageFlip_ok env;
                   s2 = call (LegacyPageFlip buffer ok) s1
               in if ok then Returns (True, s2\<lparr>crtc_next := Some buffer, m_pageFlipPending := True\<rparr>)
                  else Returns (False, s2))))"

text \<open>
  The two statements of \<^verbatim>\<open>presentAtomically\<close> that stage the buffer:
  \<^verbatim>\<open>m_primaryPlane->setNext(buffer); m_nextPlanesFlipList << m_primaryPlane;\<close>
\<close>

definition stageBuffer :: "drm_buffer \<Rightarrow> DrmPlane \<Rightarrow> DrmOutput \<Rightarrow> DrmOutput" where
  "stageBuffer buffer p s =
     (set_plane (p\<lparr>plane_next := Some buffer\<rparr>) s)\<lparr>m_nextPlanesFlipList := m_nextPlanesFlipList s @ [()]\<rparr>"

text \<open>
  The rollback of \<^verbatim>\<open>presentAtomically\<close> after a failed test commit (``go back to previous
  state''). \<^verbatim>\<open>setTransform\<close> and \<^verbatim>\<open>setGlobalPos\<close> are the setters of the base class.
\<close>

definition rollback :: "DrmOutput \<Rightarrow> DrmOutput" where
  "rollback s =
     (if lws_valid (m_lastWorkingState s) then
        (let s1 = s\<lparr>m_mode := lws_mode (m_lastWorkingState s),
                     transform := lws_transform (m_lastWorkingState s),
                     globalPos := lws_globalPos (m_lastWorkingState s)\<rparr>;
             s2 = (case m_primaryPlane s1 of
                     None \<Rightarrow> s1
                   | Some p \<Rightarrow> set_plane
                       (p\<lparr>plane_transformation := lws_planeTransformations (m_lastWorkingState s1)\<rparr>) s1);
             s3 = s2\<lparr>m_modesetRequested := True\<rparr>
         in call ScreensChanged (setWaylandMode s3))
      else s)"

text \<open>\<^verbatim>\<open>DrmOutput::presentAtomically\<close>.\<close>

definition presentAtomically :: "drm_env \<Rightarrow> drm_buffer \<Rightarrow> DrmOutput \<Rightarrow> (bool \<times> DrmOutput) outcome" where
  "presentAtomically env buffer s =
     (if \<not> session_isActive env then Returns (False, s)
      else if m_pageFlipPending s then Returns (False, s)
      else if gpu_useEglStreams s \<and> \<not> m_modesetRequested s
      then Returns (True, s\<lparr>m_pageFlipPending := True\<rparr>)
      else with_plane s (\<lambda>p.
        and_then (doAtomicCommit env AtomicTest (stageBuffer buffer p s)) (\<lambda>(tested, s1).
        if \<not> tested then Returns (False, rollback s1)
        else
          (let wasModeset = m_modesetRequested s1 in
           and_then (doAtomicCommit env AtomicReal s1) (\<lambda>(committed, s2).
           if \<not> committed then Returns (False, s2)
           else
             (let s3 = (if wasModeset then
                          call (RenderLoopSetRefreshRate (m_mode s2))
                            (s2\<lparr>m_lastWorkingState :=
                                  \<lparr>lws_valid = True, lws_mode = m_mode s2, lws_transform = transform s2,
                                   lws_globalPos = globalPos s2,
                                   lws_planeTransformations =
                                     (case m_primaryPlane s2 of
                                        None \<Rightarrow> lws_planeTransformations (m_lastWorkingState s2)
                                      | Some q \<Rightarrow> plane_transformation q)\<rparr>\<rparr>)
                        else s2)
              in Returns (True, s3\<lparr>m_pageFlipPending := True\<rparr>)))))))"

text \<open>\<^verbatim>\<open>DrmOutput::present\<close>.\<close>

definition present :: "drm_env \<Rightarrow> drm_buffer \<Rightarrow> DrmOutput \<Rightarrow> (bool \<times> DrmOutput) outcome" where
  "present env buffer s =
     (if m_dpmsModePending s \<noteq> DpmsOn then Returns (False, s)
      else if gpu_atomicModeSetting s then presentAtomically env buffer s
      else presentLegacy env buffer s)"

subsection \<open>Page-flip completion\<close>

text \<open>\<^verbatim>\<open>DrmOutput::pageFlipped\<close>.\<close>

definition pageFlipped :: "drm_env \<Rightarrow> DrmOutput \<Rightarrow> DrmOutput outcome" where
  "pageFlipped env s =
     (if q_assert env \<and> \<not> (m_pageFlipPending s \<or> \<not> gpu_atomicModeSetting s) then Aborts
      else
        (let s1 = s\<lparr>m_pageFlipPending := False\<rparr> in
         if m_deleted s1 then Returns (call DeleteLater s1)
         else if \<not> has_crtc s1 then Returns s1
         else
           and_then
             (if gpu_deleteBufferAfterPageFlip s1 then
                (if gpu_atomicModeSetting s1 then
                   with_plane s1 (\<lambda>p.
                     if plane_next p = None
                     then Returns (True, case plane_current p of
                                           None \<Rightarrow> s1 | Some b \<Rightarrow> call (ReleaseGbm b) s1)
                     else Returns (False, flipListedPlanes s1))
                 else
                   (let s2 = (if crtc_next s1 = None
                              then (case crtc_current s1 of
                                      None \<Rightarrow> s1 | Some b \<Rightarrow> call (ReleaseGbm b) s1)
                              else s1)
                    in Returns (False, crtc_flipBuffer s2)))
              else
                (if gpu_atomicModeSetting s1 then
                   Returns (False, crtc_flipBuffer (flipListedPlanes s1))
                 else Returns (False, crtc_flipBuffer (crtc_flipBuffer s1))))
             (\<lambda>(returned, s3).
                if returned then Returns s3
                else if m_atomicOffPending s3
                then and_then (dpmsAtomicOff env s3) (\<lambda>(ok, s4). Returns s4)
                else Returns s3)))"

subsection \<open>Runs of the state machine\<close>

text \<open>
  The calls that reach an output, each with the replies of the outside world while it
  runs. The result of \<^verbatim>\<open>present\<close> is dropped here; a run ends at the first call that
  does not return.
\<close>

datatype drm_event =
    UpdateDpms DpmsMode
  | UpdateEnablement bool
  | UpdateTransform Transform
  | UpdateMode int
  | Present drm_buffer
  | PageFlipped

fun drm_step :: "drm_env \<Rightarrow> drm_event \<Rightarrow> DrmOutput \<Rightarrow> DrmOutput outcome" where
  "drm_step env (UpdateDpms m) s = updateDpms env m s"
| "drm_step env (UpdateEnablement e) s = updateEnablement env e s"
| "drm_step env (UpdateTransform t) s = Returns (updateTransform env t s)"
| "drm_step env (UpdateMode i) s = updateMode env i s"
| "drm_step env (Present b) s = and_then (present env b s) (\<lambda>(ok, s'). Returns s')"
| "drm_step env PageFlipped s = pageFlipped env s"

fun drm_run :: "(drm_env \<times> drm_event) list \<Rightarrow> DrmOutput \<Rightarrow> DrmOutput outcome" where
  "drm_run [] s = Returns s"
| "drm_run ((env, e) # es) s = and_then (drm_step env e s) (drm_run es)"

text \<open>The atomic commits handed to the kernel so far, oldest first.\<close>

fun is_commit :: "drm_call \<Rightarrow> bool" where
  "is_commit (AtomicCommit mode allowModeset dpms ok) = True"
| "is_commit _ = False"

definition commits :: "DrmOutput \<Rightarrow> drm_call list" where
  "commits s = filter is_commit (drm_calls s)"

text \<open>
  An output in its steady state under atomic mode-setting, showing buffer 1 in mode 1, and
  an outside world in which every request succeeds.
\<close>

definition steady_output :: DrmOutput where
  "steady_output =
     \<lparr>gpu_atomicModeSetting = True, gpu_deleteBufferAfterPageFlip = True, gpu_useEglStreams = False,
      has_dpms = True, isEnabled = True, has_crtc = True, m_deleted = False,
      m_primaryPlane = Some \<lparr>plane_current = Some 1, plane_next = None,
                              plane_transformation = Rotate0,
                              plane_supportedTransformations = {Rotate0, Rotate180}\<rparr>,
      m_nextPlanesFlipList = [], crtc_current = None, crtc_next = None,
      m_mode = 1, transform = Normal, globalPos = (0, 0),
      m_lastWorkingState = \<lparr>lws_valid = True, lws_mode = 1, lws_transform = Normal,
                             lws_globalPos = (0, 0), lws_planeTransformations = Rotate0\<rparr>,
      m_modesetRequested = False, m_pageFlipPending = False, m_atomicOffPending = False,
      m_dpmsMode = DpmsOn, m_dpmsModePending = DpmsOn, drm_calls = []\<rparr>"

definition all_ok :: drm_env where
  "all_ok =
     \<lparr>session_isActive = True, atomicAlloc_ok = (\<lambda>m. True), createPropertyBlob_ok = (\<lambda>m. True),
      connCrtcPopulate_ok = (\<lambda>m. True), planePopulate_ok = (\<lambda>m. True),
      atomicCommit_ok = (\<lambda>m. True), connectorSetProperty_ok = True, setCrtc_ok = True,
      pageFlip_ok = True, needsModeChange = False, isCursorHidden = False,
      usesSoftwareCursor = False, swRotationsOnly = False, connector_modes = [1, 2],
      crtc_blank = (\<lambda>bufs. bufs), q_assert = True\<rparr>"

text \<open>An outside world in which the kernel rejects every atomic test commit.\<close>

definition test_fails :: drm_env where
  "test_fails = all_ok\<lparr>atomicCommit_ok := (\<lambda>m. m \<noteq> AtomicTest)\<rparr>"

text \<open>The same output driven through the legacy interface: no planes, buffer 1 on the CRTC.\<close>

definition legacy_output :: DrmOutput where
  "legacy_output = steady_output\<lparr>gpu_atomicModeSetting := False, m_primaryPlane := None,
                                  crtc_current := Some 1\<rparr>"


subsection \<open>Auxiliary notions for the proofs about the output\<close>

text \<open>What a call other than page-flip completion keeps while a flip is pending.\<close>

definition flip_in_flight :: "DrmOutput \<Rightarrow> DrmOutput \<Rightarrow> bool" where
  "flip_in_flight s s' =
     (commits s' = commits s \<and> gpu_atomicModeSetting s' \<and> m_pageFlipPending s' \<and> has_crtc s')"


section \<open>Frame orchestration: the optimized paint path\<close>

text \<open>The paint flags of scene.h.\<close>

definition PAINT_WINDOW_OPAQUE :: int where "PAINT_WINDOW_OPAQUE = 1"
definition PAINT_WINDOW_TRANSLUCENT :: int where "PAINT_WINDOW_TRANSLUCENT = 2"
definition PAINT_WINDOW_TRANSFORMED :: int where "PAINT_WINDOW_TRANSFORMED = 4"
definition PAINT_SCREEN_REGION :: int where "PAINT_SCREEN_REGION = 8"
definition PAINT_SCREEN_TRANSFORMED :: int where "PAINT_SCREEN_TRANSFORMED = 16"
definition PAINT_SCREEN_WITH_TRANSFORMED_WINDOWS :: int where "PAINT_SCREEN_WITH_TRANSFORMED_WINDOWS = 32"
definition PAINT_SCREEN_BACKGROUND_FIRST :: int where "PAINT_SCREEN_BACKGROUND_FIRST = 64"

text \<open>The reasons of \<^verbatim>\<open>Scene::Window\<close> for not painting a window.\<close>

definition PAINT_DISABLED :: int where "PAINT_DISABLED = 1"
definition PAINT_DISABLED_BY_DELETE :: int where "PAINT_DISABLED_BY_DELETE = 2"
definition PAINT_DISABLED_BY_DESKTOP :: int where "PAINT_DISABLED_BY_DESKTOP = 4"
definition PAINT_DISABLED_BY_MINIMIZE :: int where "PAINT_DISABLED_BY_MINIMIZE = 8"
definition PAINT_DISABLED_BY_ACTIVITY :: int where "PAINT_DISABLED_BY_ACTIVITY = 32"

text \<open>
  A window's surface item: its shape and its opaque region, in item coordinates, and the
  item's \<^verbatim>\<open>rootPosition()\<close>, by which \<^verbatim>\<open>mapToGlobal\<close> translates.
\<close>

record SurfaceItem =
  si_shape :: region
  si_opaque :: region
  si_rootPosition :: "int \<times> int"

text \<open>
  A scene window with what the paint path asks of it and of its toplevel. \<open>w_isClient\<close>
  tells whether the toplevel is an \<^verbatim>\<open>AbstractClient\<close>; \<open>w_opacityIsOne\<close> is the
  comparison \<^verbatim>\<open>opacity() == 1.0\<close>; \<open>w_isOnDesktop\<close> is the desktop test that
  \<^verbatim>\<open>resetPaintingEnabled\<close> applies; \<open>w_repaints\<close> is \<^verbatim>\<open>m_repaints\<close> for the painted
  screen.
\<close>

record SceneWindow =
  w_id :: nat
  w_hasAlpha :: bool
  w_opacityIsOne :: bool
  w_isClient :: bool
  w_isFullScreen :: bool
  w_decorationHasAlpha :: bool
  w_decorationShape :: region
  w_pos :: "int \<times> int"
  w_surfaceItem :: "SurfaceItem option"
  w_isDeleted :: bool
  w_isOnDesktop :: bool
  w_isOnCurrentActivity :: bool
  w_isMinimized :: bool
  w_isHiddenInternal :: bool
  w_repaints :: region
  disable_painting :: int

record WindowPrePaintData =
  wd_mask :: int
  wd_paint :: region
  wd_clip :: region

record Phase2Data =
  p2_window :: nat
  p2_region :: region
  p2_clip :: region
  p2_mask :: int

datatype paint_call =
    AboutToStartPainting region
  | PaintBackground region
  | PaintWindow nat int region

record Scene =
  stacking_order :: "SceneWindow list"
  repaint_region :: region
  painted_region :: region
  damaged_region :: region
  m_paintScreenCount :: int
  paint_calls :: "paint_call list"

text \<open>
  What the paint path takes from outside: the screen size, the constant
  \<^verbatim>\<open>infiniteRegion()\<close>, the effects' \<^verbatim>\<open>prePaintWindow\<close> hook (it may change the paint
  data and enable or disable painting of the window), the scene's \<^verbatim>\<open>extendPaintRegion\<close>
  (the base class leaves the region alone), and whether \<^verbatim>\<open>Q_ASSERT\<close> is compiled in.
  Window quads are left out: the regions do not depend on them.
\<close>

record paint_env =
  screens_size :: "int \<times> int"
  infiniteRegion :: region
  prePaintWindow :: "SceneWindow \<Rightarrow> WindowPrePaintData \<Rightarrow> WindowPrePaintData \<times> int"
  extendPaintRegion :: "region \<Rightarrow> bool \<Rightarrow> region"
  scene_q_assert :: bool

text \<open>\<^verbatim>\<open>Scene::Window::isOpaque\<close>, \<^verbatim>\<open>resetPaintingEnabled\<close>, \<^verbatim>\<open>isPaintingEnabled\<close>,
  \<^verbatim>\<open>repaints\<close> and \<^verbatim>\<open>resetRepaints\<close>.\<close>

definition isOpaque :: "SceneWindow \<Rightarrow> bool" where
  "isOpaque w = (w_opacityIsOne w \<and> \<not> w_hasAlpha w)"

definition resetPaintingEnabled :: "SceneWindow \<Rightarrow> SceneWindow" where
  "resetPaintingEnabled w =
     w\<lparr>disable_painting :=
         or (or (or (or (if w_isDeleted w then PAINT_DISABLED_BY_DELETE else 0)
                        (if \<not> w_isOnDesktop w then PAINT_DISABLED_BY_DESKTOP else 0))
                    (if \<not> w_isOnCurrentActivity w then PAINT_DISABLED_BY_ACTIVITY else 0))
                (if w_isClient w \<and> w_isMinimized w then PAINT_DISABLED_BY_MINIMIZE else 0))
            (if w_isClient w \<and> w_isHiddenInternal w then PAINT_DISABLED else 0)\<rparr>"

definition isPaintingEnabled :: "SceneWindow \<Rightarrow> bool" where
  "isPaintingEnabled w = (disable_painting w = 0)"

definition repaints :: "paint_env \<Rightarrow> SceneWindow \<Rightarrow> region" where
  "repaints env w =
     (if w_repaints w = infiniteRegion env
      then QRegion_rect 0 0 (fst (screens_size env)) (snd (screens_size env))
      else w_repaints w)"

definition resetRepaints :: "SceneWindow \<Rightarrow> SceneWindow" where
  "resetRepaints w = w\<lparr>w_repaints := {}\<rparr>"

text \<open>
  The body of the first loop of \<^verbatim>\<open>Scene::paintSimpleScreen\<close> for one window, up to the
  effects' hook: the paint region and the clip region of the window.
\<close>

definition windowPrePaintData :: "paint_env \<Rightarrow> int \<Rightarrow> region \<Rightarrow> SceneWindow \<Rightarrow> WindowPrePaintData" where
  "windowPrePaintData env orig_mask region w =
     (let data0 = \<lparr>wd_mask = or orig_mask (if isOpaque w then PAINT_WINDOW_OPAQUE else PAINT_WINDOW_TRANSLUCENT),
                    wd_paint = region \<union> repaints env w,
                    wd_clip = {}\<rparr>;
          data1 =
            (if isOpaque w then
               (case w_surfaceItem w of
                  None \<Rightarrow> data0
                | Some si \<Rightarrow> data0\<lparr>wd_clip := wd_clip data0 \<union> region_translated (si_shape si) (si_rootPosition si)\<rparr>)
             else if w_hasAlpha w \<and> w_opacityIsOne w then
               (case w_surfaceItem w of
                  None \<Rightarrow> data0
                | Some si \<Rightarrow>
                    (let d = data0\<lparr>wd_clip := region_translated (si_shape si \<inter> si_opaque si) (si_rootPosition si)\<rparr>
                     in if si_opaque si = si_shape si
                        then d\<lparr>wd_mask := or orig_mask PAINT_WINDOW_OPAQUE\<rparr> else d))
             else data0\<lparr>wd_clip := {}\<rparr>)
      in if w_isClient w \<and> \<not> w_decorationHasAlpha w \<and> w_opacityIsOne w
         then data1\<lparr>wd_clip := wd_clip data1 \<union> region_translated (w_decorationShape w) (w_pos w)\<rparr>
         else data1)"

text \<open>
  The first loop, bottom to top: the windows after the loop (repaints reset, painting
  enabled or not), the entries scheduled for painting, the dirty area and
  \<^verbatim>\<open>opaqueFullscreen\<close>.
\<close>

fun prePaintPass ::
  "paint_env \<Rightarrow> int \<Rightarrow> region \<Rightarrow> SceneWindow list \<Rightarrow> Phase2Data list \<Rightarrow> region \<Rightarrow> bool \<Rightarrow>
   SceneWindow list \<times> Phase2Data list \<times> region \<times> bool" where
  "prePaintPass env orig_mask region [] phase2data dirtyArea opaqueFullscreen =
     ([], phase2data, dirtyArea, opaqueFullscreen)"
| "prePaintPass env orig_mask region (window # ws) phase2data dirtyArea opaqueFullscreen =
     (let w1 = resetPaintingEnabled window;
          data = windowPrePaintData env orig_mask region w1;
          w2 = resetRepaints w1;
          opaqueFullscreen' = (isOpaque w2 \<and> w_isClient w2 \<and> w_isFullScreen w2);
          (data', disabled) = prePaintWindow env w2 data;
          w3 = w2\<lparr>disable_painting := disabled\<rparr>;
          (ws', rest) =
            (if \<not> isPaintingEnabled w3
             then prePaintPass env orig_mask region ws phase2data dirtyArea opaqueFullscreen'
             else prePaintPass env orig_mask region ws
                    (phase2data @ [\<lparr>p2_window = w_id w3, p2_region = wd_paint data',
                                     p2_clip = wd_clip data', p2_mask = wd_mask data'\<rparr>])
                    (dirtyArea \<union> wd_paint data') opaqueFullscreen')
      in (w3 # ws', rest))"

text \<open>
  The occlusion culling pass, from the topmost entry down: the loop
  \<^verbatim>\<open>for (int i = phase2data.count() - 1; i >= 0; --i)\<close> run over the entries in top-first
  order, with \<^verbatim>\<open>allclips\<close> and \<^verbatim>\<open>upperTranslucentDamage\<close> as loop state.
\<close>

fun occlusionLoop ::
  "bool \<Rightarrow> region \<Rightarrow> Phase2Data list \<Rightarrow> region \<Rightarrow> region \<Rightarrow> Phase2Data list \<times> region" where
  "occlusionLoop fullRepaint displayRegion [] allclips upperTranslucentDamage = ([], allclips)"
| "occlusionLoop fullRepaint displayRegion (d # ds) allclips upperTranslucentDamage =
     (let r0 = (if fullRepaint then displayRegion else p2_region d \<union> upperTranslucentDamage);
          r1 = r0 - allclips;
          d' = d\<lparr>p2_region := r1\<rparr>;
          (allclips', utd') =
            (if p2_clip d' \<noteq> {} \<and> and (p2_mask d') PAINT_WINDOW_TRANSLUCENT = 0
             then (allclips \<union> p2_clip d',
                   if \<not> fullRepaint then upperTranslucentDamage \<union> (p2_region d' - p2_clip d')
                   else upperTranslucentDamage)
             else (allclips,
                   if \<not> fullRepaint then upperTranslucentDamage \<union> p2_region d'
                   else upperTranslucentDamage));
          (ds', allclips'') = occlusionLoop fullRepaint displayRegion ds allclips' utd'
      in (d' # ds', allclips''))"

definition occlusionPass ::
  "bool \<Rightarrow> region \<Rightarrow> region \<Rightarrow> Phase2Data list \<Rightarrow> Phase2Data list \<times> region" where
  "occlusionPass fullRepaint displayRegion repaint phase2data =
     (let (ds, allclips) = occlusionLoop fullRepaint displayRegion (rev phase2data) {} repaint
      in (rev ds, allclips))"

text \<open>
  The last loop, bottom to top: each entry is painted with the union of the regions drawn so
  far.
\<close>

fun paintPass :: "Phase2Data list \<Rightarrow> region \<Rightarrow> paint_call list \<times> region" where
  "paintPass [] paintedArea = ([], paintedArea)"
| "paintPass (d # ds) paintedArea =
     (let paintedArea' = paintedArea \<union> p2_region d;
          (cs, final) = paintPass ds paintedArea'
      in (PaintWindow (p2_window d) (p2_mask d) paintedArea' # cs, final))"

text \<open>
  What \<^verbatim>\<open>Scene::paintSimpleScreen\<close> computes before it paints: the entries after the
  occlusion pass, \<^verbatim>\<open>allclips\<close>, the dirty area, \<^verbatim>\<open>fullRepaint\<close>, \<^verbatim>\<open>repaintClip\<close> and
  the windows.
\<close>

record culling =
  c_windows :: "SceneWindow list"
  c_phase2data :: "Phase2Data list"
  c_allclips :: region
  c_dirtyArea :: region
  c_fullRepaint :: bool
  c_repaintClip :: region

definition displayRegion :: "paint_env \<Rightarrow> region" where
  "displayRegion env = QRegion_rect 0 0 (fst (screens_size env)) (snd (screens_size env))"

definition occlusionCulling :: "paint_env \<Rightarrow> int \<Rightarrow> region \<Rightarrow> Scene \<Rightarrow> culling" where
  "occlusionCulling env orig_mask region scene =
     (let (ws, phase2data, dirtyArea0, opaqueFullscreen) =
            prePaintPass env orig_mask region (stacking_order scene) [] region False;
          repaintClip = repaint_region scene - dirtyArea0;
          dirtyArea1 = dirtyArea0 \<union> repaint_region scene;
          fullRepaint0 = (dirtyArea1 = displayRegion env);
          dirtyArea = (if \<not> fullRepaint0 then extendPaintRegion env dirtyArea1 opaqueFullscreen
                       else dirtyArea1);
          fullRepaint = (if \<not> fullRepaint0 then dirtyArea = displayRegion env else fullRepaint0);
          (phase2data', allclips) =
            occlusionPass fullRepaint (displayRegion env) (repaint_region scene) phase2data
      in \<lparr>c_windows = ws, c_phase2data = phase2data', c_allclips = allclips,
          c_dirtyArea = dirtyArea, c_fullRepaint = fullRepaint, c_repaintClip = repaintClip\<rparr>)"

text \<open>
  The region handed to \<^verbatim>\<open>paintBackground\<close> by the step ``fill any areas of the root
  window not covered by opaque windows'', when \<^verbatim>\<open>PAINT_SCREEN_BACKGROUND_FIRST\<close> is not
  set.
\<close>

definition backgroundFill :: "culling \<Rightarrow> region" where
  "backgroundFill c = c_dirtyArea c - c_allclips c"

text \<open>\<^verbatim>\<open>Scene::paintSimpleScreen\<close>.\<close>

definition paintSimpleScreen :: "paint_env \<Rightarrow> int \<Rightarrow> region \<Rightarrow> Scene \<Rightarrow> Scene outcome" where
  "paintSimpleScreen env orig_mask region scene =
     (if scene_q_assert env
         \<and> and orig_mask (or PAINT_SCREEN_TRANSFORMED PAINT_SCREEN_WITH_TRANSFORMED_WINDOWS) \<noteq> 0
      then Aborts
      else
        (let c = occlusionCulling env orig_mask region scene;
             first = (if m_paintScreenCount scene = 1
                      then AboutToStartPainting (c_dirtyArea c) #
                           (if and orig_mask PAINT_SCREEN_BACKGROUND_FIRST \<noteq> 0
                            then [PaintBackground (infiniteRegion env)] else [])
                      else []);
             (paintedArea0, bg) =
               (if and orig_mask PAINT_SCREEN_BACKGROUND_FIRST = 0
                then (backgroundFill c, [PaintBackground (backgroundFill c)])
                else ({}, []));
             (windowCalls, paintedArea) = paintPass (c_phase2data c) paintedArea0
         in Returns (scene\<lparr>stacking_order := c_windows c,
                           painted_region := (if c_fullRepaint c then displayRegion env
                                              else painted_region scene \<union> paintedArea),
                           damaged_region := (if c_fullRepaint c then displayRegion env - c_repaintClip c
                                              else paintedArea - c_repaintClip c),
                           paint_calls := paint_calls scene @ first @ bg @ windowCalls\<rparr>)))"

text \<open>\<^verbatim>\<open>extendPaintRegion\<close> only adds to the region it is given (the base class adds nothing).\<close>

definition only_extends :: "paint_env \<Rightarrow> bool" where
  "only_extends env = (\<forall>r b. r \<subseteq> extendPaintRegion env r b)"

text \<open>
  Example inputs: KWin's \<^verbatim>\<open>infiniteRegion()\<close>, an outside world without effects, an
  opaque undecorated window with the given surface shape (at the origin) and pending
  repaints, and a scene about to paint its first screen pass.
\<close>

definition kwin_infiniteRegion :: region where
  "kwin_infiniteRegion = QRegion_rect (- 1073741824) (- 1073741824) 2147483647 2147483647"

definition no_effects :: "int \<times> int \<Rightarrow> paint_env" where
  "no_effects sz =
     \<lparr>screens_size = sz, infiniteRegion = kwin_infiniteRegion,
      prePaintWindow = (\<lambda>w d. (d, disable_painting w)),
      extendPaintRegion = (\<lambda>r b. r), scene_q_assert = True\<rparr>"

definition opaque_window :: "nat \<Rightarrow> region \<Rightarrow> region \<Rightarrow> SceneWindow" where
  "opaque_window i shape pending =
     \<lparr>w_id = i, w_hasAlpha = False, w_opacityIsOne = True, w_isClient = False,
      w_isFullScreen = False, w_decorationHasAlpha = False, w_decorationShape = {},
      w_pos = (0, 0),
      w_surfaceItem = Some \<lparr>si_shape = shape, si_opaque = shape, si_rootPosition = (0, 0)\<rparr>,
      w_isDeleted = False, w_isOnDesktop = True, w_isOnCurrentActivity = True,
      w_isMinimized = False, w_isHiddenInternal = False, w_repaints = pending,
      disable_painting = 0\<rparr>"

definition scene_of :: "SceneWindow list \<Rightarrow> Scene" where
  "scene_of ws =
     \<lparr>stacking_order = ws, repaint_region = {}, painted_region = {}, damaged_region = {},
      m_paintScreenCount = 1, paint_calls = []\<rparr>"


section \<open>Properties of the damage history\<close>

lemma replayDamage_take:
  "0 \<le> i \<Longrightarrow> bufferAge - 1 \<le> int (length h) \<Longrightarrow> i \<le> bufferAge - 1 \<Longrightarrow>
   replayDamage h bufferAge i r = Some (r \<union> \<Union> (set (drop (nat i) (take (nat (bufferAge - 1)) h))))"
proof (induction h bufferAge i r rule: replayDamage.induct)
  case (1 h a i r)
  show ?case
  proof (cases "i < a - 1")
    case True
    then have inr: "nat i < length h" using "1.prems" by linarith
    have step: "drop (nat i) (take (nat (a - 1)) h)
                 = h ! nat i # drop (nat (i + 1)) (take (nat (a - 1)) h)"
    proof -
      have "nat i < length (take (nat (a - 1)) h)" using True "1.prems" by simp
      then have "drop (nat i) (take (nat (a - 1)) h)
                 = take (nat (a - 1)) h ! nat i # drop (Suc (nat i)) (take (nat (a - 1)) h)"
        by (rule Cons_nth_drop_Suc [symmetric])
      moreover have "take (nat (a - 1)) h ! nat i = h ! nat i" using True "1.prems" by simp
      moreover have "Suc (nat i) = nat (i + 1)" using "1.prems" by simp
      ultimately show ?thesis by simp
    qed
    have "replayDamage h a i r = replayDamage h a (i + 1) (r \<union> h ! nat i)"
      using True inr "1.prems" by (subst replayDamage.simps) simp
    also have "\<dots> = Some ((r \<union> h ! nat i) \<union> \<Union> (set (drop (nat (i + 1)) (take (nat (a - 1)) h))))"
      using "1.IH" [OF True] inr "1.prems" True by simp
    finally show ?thesis by (simp add: step Un_assoc)
  next
    case False
    then have "i = a - 1" using "1.prems" by simp
    then show ?thesis by (subst replayDamage.simps) simp
  qed
qed


text \<open>
  Claim C2. For every history and every age: when \<open>0 < age \<le> length history\<close> the
  accumulated damage is the union of the first \<open>age - 1\<close> entries of the history (newest
  first); for every other age it is the full output rectangle. No index is out of range.
\<close>

theorem accumulatedDamageHistory_contract:
  "accumulatedDamageHistory screenSize h age =
     Some (if 0 < age \<and> age \<le> int (length h)
           then \<Union> (set (take (nat (age - 1)) h))
           else QRegion_rect 0 0 (fst screenSize) (snd screenSize))"
proof (cases "0 < age \<and> age \<le> int (length h)")
  case True
  then have "replayDamage h age 0 {} = Some ({} \<union> \<Union> (set (drop (nat 0) (take (nat (age - 1)) h))))"
    by (intro replayDamage_take) simp_all
  with True show ?thesis by (simp add: accumulatedDamageHistory_def)
next
  case False
  then show ?thesis by (auto simp: accumulatedDamageHistory_def)
qed

theorem accumulatedDamageHistory_contract_witness:
  "accumulatedDamageHistory (1920, 1080) [{(0, 0)}, {(5, 7)}, {(9, 9)}, {(2, 2)}] 3 = Some {(0, 0), (5, 7)}
   \<and> accumulatedDamageHistory (2, 1) [{(0, 0)}] 2 = Some {(0, 0), (1, 0)}"
proof -
  have "QRegion_rect 0 0 2 1 = {(0, 0), (1, 0)}"
    by (auto simp: QRegion_rect_def)
  then show ?thesis
    using accumulatedDamageHistory_contract [of "(1920, 1080)" "[{(0, 0)}, {(5, 7)}, {(9, 9)}, {(2, 2)}]" 3]
      accumulatedDamageHistory_contract [of "(2, 1)" "[{(0, 0)}]" 2]
    by (simp add: numeral_2_eq_2 insert_commute)
qed

text \<open>
  Claim C7. Recording a frame's damage is meant to leave at most 10 entries in the history.
  The guard \<^verbatim>\<open>count() > 10\<close> only drops the oldest entry once the list already holds 11,
  so a history of 10 entries grows to 11, in the base class and in both per-output copies of
  the code; from then on the length stays at 11, the oldest entry being the one dropped.
\<close>

theorem addToDamageHistory_eleven_entries:
  "length (addToDamageHistory {(0, 0)} (replicate 10 {(1, 1)})) = 11
   \<and> length (EglWayland_endFrame True UNIV {(0, 0)} (replicate 10 {(1, 1)})) = 11
   \<and> length (EglGbm_endFrame True True UNIV {(0, 0)} (replicate 10 {(1, 1)})) = 11
   \<and> addToDamageHistory {(0, 0)} (replicate 10 {(1, 1)} @ [{(2, 2)}]) = {(0, 0)} # replicate 10 {(1, 1)}"
  by (simp add: addToDamageHistory_def EglWayland_endFrame_def EglGbm_endFrame_def)

lemma addToDamageHistory_length:
  "length (addToDamageHistory d h) = (if length h > 10 then length h else Suc (length h))"
  by (auto simp: addToDamageHistory_def)

lemma addToDamageHistory_bound:
  "length h \<le> 11 \<Longrightarrow> length (addToDamageHistory d h) \<le> 11"
  by (simp add: addToDamageHistory_length)

text \<open>
  Claim C8, as stated: an age of 1 yields the empty region for every history, the empty
  history included. With no recorded history the age exceeds the history length and the full
  output rectangle is returned instead.
\<close>

theorem accumulatedDamageHistory_age1_counterexample:
  "accumulatedDamageHistory (1920, 1080) [] 1 \<noteq> Some {}"
proof -
  have "(0, 0) \<in> QRegion_rect 0 0 1920 1080"
    by (simp add: QRegion_rect_def)
  then have "QRegion_rect 0 0 1920 1080 \<noteq> {}"
    by blast
  then show ?thesis
    by (simp add: accumulatedDamageHistory_def)
qed

text \<open>
  Claim C8, amended. An age of 1 yields the empty region whenever at least one frame has
  been recorded; on an empty history it yields the full output rectangle.
\<close>

theorem accumulatedDamageHistory_age1:
  "accumulatedDamageHistory screenSize h 1 =
     Some (if h = [] then QRegion_rect 0 0 (fst screenSize) (snd screenSize) else {})"
proof (cases h)
  case Nil
  then show ?thesis by (simp add: accumulatedDamageHistory_def)
next
  case (Cons d ds)
  have "replayDamage h 1 0 {} = Some {}"
    by (subst replayDamage.simps) simp
  with Cons show ?thesis by (simp add: accumulatedDamageHistory_def)
qed

theorem accumulatedDamageHistory_age1_witness:
  "accumulatedDamageHistory (1920, 1080) [{(3, 4)}] 1 = Some {}
   \<and> accumulatedDamageHistory (1, 1) [] 1 = Some {(0, 0)}"
proof -
  have "QRegion_rect 0 0 1 1 = {(0, 0)}"
    by (auto simp: QRegion_rect_def)
  then show ?thesis
    using accumulatedDamageHistory_age1 [of "(1920, 1080)" "[{(3, 4)}]"]
      accumulatedDamageHistory_age1 [of "(1, 1)" "[]"]
    by simp
qed


text \<open>
  The history that \<^verbatim>\<open>EglWaylandBackend::endFrame\<close> leaves is the one computed by
  \<open>EglWayland_endFrame\<close>; the swap is issued for every damaged region.
\<close>

lemma EglWaylandBackend_endFrame_history:
  "wl_damageHistory (EglWaylandBackend_endFrame env renderedRegion damagedRegion output)
     = EglWayland_endFrame (wl_supportsBufferAge env) (wl_geometry output) damagedRegion
         (wl_damageHistory output)"
  by (simp add: EglWaylandBackend_endFrame_def presentOnSurface_def EglWayland_endFrame_def Let_def)

lemma EglWaylandBackend_endFrame_swaps:
  "\<exists>swap. wl_calls (EglWaylandBackend_endFrame env renderedRegion damagedRegion output)
     = wl_calls output @ [SetupFrameCallback, SetScale (wl_scale output),
                          OutputChange (damagedRegion \<inter> wl_geometry output), swap]
     \<and> (swap = SwapBuffers \<or> swap = SwapBuffersWithDamage (hd (wl_damageHistory output)))"
  by (simp add: EglWaylandBackend_endFrame_def presentOnSurface_def Let_def)



section \<open>Properties of the item tree\<close>

lemma depth_lt_mono: "depth_lt par n i \<Longrightarrow> depth_lt par (Suc n) i"
proof (induction n arbitrary: i)
  case 0
  then show ?case by simp
next
  case (Suc n)
  show ?case
  proof (cases "par i")
    case None
    then show ?thesis by simp
  next
    case (Some p)
    with Suc.prems have "depth_lt par n p" by simp
    then have "depth_lt par (Suc n) p" by (rule Suc.IH)
    with Some show ?thesis by (simp del: depth_lt.simps add: depth_lt.simps(2) [of par "Suc n" i])
  qed
qed

lemma depth_lt_not_self: "depth_lt par n i \<Longrightarrow> par i \<noteq> Some i"
  by (induction n) auto

lemma depth_lt_parent: "depth_lt par n i \<Longrightarrow> par i = Some p \<Longrightarrow> depth_lt par n p"
proof (cases n)
  case 0
  assume "depth_lt par n i"
  with 0 show ?thesis by simp
next
  case (Suc m)
  assume "depth_lt par n i" and "par i = Some p"
  with Suc have "depth_lt par m p" by simp
  then have "depth_lt par (Suc m) p" by (rule depth_lt_mono)
  with Suc show ?thesis by blast
qed

lemma rootPositionLoop_returns:
  "(case par of None \<Rightarrow> True | Some p \<Rightarrow> depth_lt (parents its) n p) \<Longrightarrow>
   \<exists>g. rootPositionLoop n its ret par = Returns g"
proof (induction n arbitrary: ret par)
  case 0
  then show ?case by (cases par) auto
next
  case (Suc n)
  show ?case
  proof (cases par)
    case None
    then show ?thesis by simp
  next
    case (Some p)
    with Suc.prems have "case m_parentItem (its p) of None \<Rightarrow> True | Some q \<Rightarrow> depth_lt (parents its) n q"
      by (simp add: parents_def split: option.splits)
    from Suc.IH [OF this] Some show ?thesis by simp
  qed
qed

lemma returns_with_Returns [simp]: "returns_with (Returns a) P = P a"
  by (simp add: returns_with_def)

lemma returns_with_and_then:
  "returns_with m Q \<Longrightarrow> (\<And>a. Q a \<Longrightarrow> returns_with (f a) P) \<Longrightarrow> returns_with (and_then m f) P"
  by (cases m) (auto simp: returns_with_def)

lemma returns_with_weaken:
  "returns_with m Q \<Longrightarrow> (\<And>a. Q a \<Longrightarrow> P a) \<Longrightarrow> returns_with m P"
  by (cases m) (auto simp: returns_with_def)

lemma returns_withD: "returns_with m P \<Longrightarrow> \<exists>a. m = Returns a \<and> P a"
  by (cases m) (auto simp: returns_with_def)

lemma scheduleRepaint_returns:
  "forest (parents (items s)) fuel \<Longrightarrow>
   returns_with (scheduleRepaint fuel i r s) (\<lambda>s'. items s' = items s)"
proof -
  assume f: "forest (parents (items s)) fuel"
  have "case m_parentItem (items s i) of None \<Rightarrow> True | Some p \<Rightarrow> depth_lt (parents (items s)) fuel p"
    using f by (simp add: forest_def split: option.splits)
  from rootPositionLoop_returns [OF this] obtain g
    where "rootPositionLoop fuel (items s) (position (items s i)) (m_parentItem (items s i)) = Returns g"
    by blast
  then show ?thesis
    by (simp add: scheduleRepaint_def rootPosition_def)
qed

lemma items_discardQuads [simp]: "items (discardQuads i s) = items s"
  by (simp add: discardQuads_def)

lemma items_upd_item [simp]: "items (upd_item i f s) = (items s)(i := f (items s i))"
  by (simp add: upd_item_def)

lemma items_set_boundingRect [simp]:
  "items (set_boundingRect i br s) = (items s)(i := (items s i)\<lparr>m_boundingRect := br\<rparr>)"
  by (simp add: set_boundingRect_def)

lemma only_rects_refl [simp]: "only_rects its its"
proof -
  have "\<And>j. its j = (its j)\<lparr>m_boundingRect := m_boundingRect (its j)\<rparr>" by simp
  then show ?thesis unfolding only_rects_def by blast
qed

lemma only_rects_trans: "only_rects a b \<Longrightarrow> only_rects b c \<Longrightarrow> only_rects a c"
  unfolding only_rects_def
proof
  fix j
  assume ab: "\<forall>j. \<exists>br. b j = (a j)\<lparr>m_boundingRect := br\<rparr>"
    and bc: "\<forall>j. \<exists>br. c j = (b j)\<lparr>m_boundingRect := br\<rparr>"
  from ab obtain br1 where "b j = (a j)\<lparr>m_boundingRect := br1\<rparr>" by blast
  moreover from bc obtain br2 where "c j = (b j)\<lparr>m_boundingRect := br2\<rparr>" by blast
  ultimately have "c j = (a j)\<lparr>m_boundingRect := br2\<rparr>" by simp
  then show "\<exists>br. c j = (a j)\<lparr>m_boundingRect := br\<rparr>" by blast
qed

lemma only_rects_upd: "only_rects its (its(i := (its i)\<lparr>m_boundingRect := br\<rparr>))"
  unfolding only_rects_def
proof
  fix j
  show "\<exists>b. (its(i := (its i)\<lparr>m_boundingRect := br\<rparr>)) j = (its j)\<lparr>m_boundingRect := b\<rparr>"
  proof (cases "j = i")
    case True then show ?thesis by auto
  next
    case False
    have "its j = (its j)\<lparr>m_boundingRect := m_boundingRect (its j)\<rparr>" by simp
    with False show ?thesis by (metis fun_upd_other)
  qed
qed

lemma only_rects_fields:
  assumes "only_rects its its'"
  shows "m_parentItem (its' j) = m_parentItem (its j)"
    and "m_childItems (its' j) = m_childItems (its j)"
    and "receivers (its' j) = receivers (its j)"
    and "position (its' j) = position (its j)"
    and "rect (its' j) = rect (its j)"
proof -
  from assms obtain br where "its' j = (its j)\<lparr>m_boundingRect := br\<rparr>"
    unfolding only_rects_def by blast
  then show "m_parentItem (its' j) = m_parentItem (its j)"
    and "m_childItems (its' j) = m_childItems (its j)"
    and "receivers (its' j) = receivers (its j)"
    and "position (its' j) = position (its j)"
    and "rect (its' j) = rect (its j)"
    by (simp_all add: position_def rect_def item_width_def item_height_def)
qed

lemma only_rects_parents: "only_rects its its' \<Longrightarrow> parents its' = parents its"
  by (auto simp: parents_def only_rects_fields)

lemma only_rects_links:
  assumes "only_rects its its'"
  shows "children_have_parent its' = children_have_parent its"
    and "parent_has_child its' = parent_has_child its"
    and "receivers_ok its' = receivers_ok its"
  by (simp_all add: children_have_parent_def parent_has_child_def receivers_ok_def
      only_rects_fields [OF assms] cong: option.case_cong)

lemma childrenBoundingRect_cong:
  assumes "m_childItems (its' i) = m_childItems (its i)" and "rect (its' i) = rect (its i)"
    and "\<And>c. c \<in> set (m_childItems (its i)) \<Longrightarrow>
           boundingRect (its' c) = boundingRect (its c) \<and> position (its' c) = position (its c)"
  shows "childrenBoundingRect its' i = childrenBoundingRect its i"
proof -
  have "\<And>a. (\<And>c. c \<in> set cs \<Longrightarrow>
           boundingRect (its' c) = boundingRect (its c) \<and> position (its' c) = position (its c)) \<Longrightarrow>
        foldl (\<lambda>br c. united br (translated (boundingRect (its' c)) (position (its' c)))) a cs
        = foldl (\<lambda>br c. united br (translated (boundingRect (its c)) (position (its c)))) a cs" for cs
    by (induction cs) simp_all
  with assms show ?thesis by (simp add: childrenBoundingRect_def)
qed

lemma rect_ok_upd_other:
  assumes "i \<notin> set (m_childItems (its j))" and "j \<noteq> i"
  shows "rect_ok (its(i := it')) j = rect_ok its j"
proof -
  have "childrenBoundingRect (its(i := it')) j = childrenBoundingRect its j"
    using assms by (intro childrenBoundingRect_cong) auto
  with assms show ?thesis by (simp add: rect_ok_def)
qed

lemma rect_ok_upd_self:
  assumes "i \<notin> set (m_childItems (its i))"
  shows "rect_ok (its(i := (its i)\<lparr>m_boundingRect := childrenBoundingRect its i\<rparr>)) i"
proof -
  have "childrenBoundingRect (its(i := (its i)\<lparr>m_boundingRect := childrenBoundingRect its i\<rparr>)) i
        = childrenBoundingRect its i"
    using assms by (intro childrenBoundingRect_cong) (auto simp: rect_def item_width_def item_height_def)
  then show ?thesis by (simp add: rect_ok_def boundingRect_def)
qed

lemma not_own_child:
  assumes "children_have_parent its" and "depth_lt (parents its) n i"
  shows "i \<notin> set (m_childItems (its i))"
proof
  assume "i \<in> set (m_childItems (its i))"
  with assms(1) have "parents its i = Some i"
    by (simp add: children_have_parent_def parents_def)
  with depth_lt_not_self [OF assms(2)] show False by simp
qed

lemma updateBoundingRect_restores:
  assumes "children_have_parent (items s)" and "receivers_ok (items s)"
    and "depth_lt (parents (items s)) fuel i"
    and "\<forall>j. j \<noteq> i \<longrightarrow> rect_ok (items s) j"
  shows "returns_with (updateBoundingRect fuel i s)
           (\<lambda>s'. boundingRects_ok (items s') \<and> only_rects (items s) (items s')
                  \<and> window_calls s' = window_calls s)"
  using assms
proof (induction fuel arbitrary: i s)
  case 0
  then show ?case by simp
next
  case (Suc fuel)
  let ?its = "items s"
  let ?br = "childrenBoundingRect ?its i"
  let ?s1 = "set_boundingRect i ?br s"
  let ?its1 = "items ?s1"
  show ?case
  proof (cases "m_boundingRect (?its i) = ?br")
    case True
    then have "rect_ok ?its i" by (simp add: rect_ok_def boundingRect_def)
    with Suc.prems(4) have "boundingRects_ok ?its"
      by (auto simp: boundingRects_ok_def)
    with True show ?thesis by simp
  next
    case False
    have or1: "only_rects ?its ?its1"
      by (simp add: only_rects_upd)
    have self: "i \<notin> set (m_childItems (?its i))"
      using Suc.prems(1,3) by (rule not_own_child)
    have ok_i: "rect_ok ?its1 i"
      using rect_ok_upd_self [of i ?its] self by simp
    have ok_other: "rect_ok ?its1 j" if "j \<noteq> i" and "i \<notin> set (m_childItems (?its j))" for j
      using rect_ok_upd_other [of i ?its j] that Suc.prems(4) by simp
    have chp: "\<And>j. i \<in> set (m_childItems (?its j)) \<Longrightarrow> m_parentItem (?its i) = Some j"
      using Suc.prems(1) by (simp add: children_have_parent_def)
    show ?thesis
    proof (cases "receivers (?its i)")
      case Nil
      have nochild: "i \<notin> set (m_childItems (?its j))" for j
      proof
        assume c: "i \<in> set (m_childItems (?its j))"
        then have "m_parentItem (?its i) = Some j" by (rule chp)
        with Suc.prems(2) c have "receivers (?its i) = [j]"
          by (simp add: receivers_ok_def)
        with Nil show False by simp
      qed
      have "boundingRects_ok ?its1"
        unfolding boundingRects_ok_def
      proof
        fix j show "rect_ok ?its1 j"
          using ok_i ok_other [of j] nochild by (cases "j = i") auto
      qed
      with False Nil or1 show ?thesis
        by (simp add: Let_def set_boundingRect_def)
    next
      case (Cons p ps)
      from Suc.prems(2) have rcv: "receivers (?its i) =
          (case m_parentItem (?its i) of None \<Rightarrow> []
           | Some q \<Rightarrow> if i \<in> set (m_childItems (?its q)) then [q] else [])"
        by (simp add: receivers_ok_def)
      with Cons have par: "m_parentItem (?its i) = Some p" and ps: "ps = []"
        and child: "i \<in> set (m_childItems (?its p))"
        by (auto split: option.splits if_splits)
      have pi: "p \<noteq> i"
        using depth_lt_not_self [OF Suc.prems(3)] par by (auto simp: parents_def)
      have d: "depth_lt (parents ?its1) fuel p"
        using Suc.prems(3) par only_rects_parents [OF or1] by (simp add: parents_def)
      have others: "\<forall>j. j \<noteq> p \<longrightarrow> rect_ok ?its1 j"
      proof (intro allI impI)
        fix j assume jp: "j \<noteq> p"
        show "rect_ok ?its1 j"
        proof (cases "j = i")
          case True with ok_i show ?thesis by simp
        next
          case False
          have "i \<notin> set (m_childItems (?its j))"
            using chp [of j] par jp by auto
          with False show ?thesis by (rule ok_other)
        qed
      qed
      have "returns_with (updateBoundingRect fuel p ?s1)
              (\<lambda>s'. boundingRects_ok (items s') \<and> only_rects ?its1 (items s')
                     \<and> window_calls s' = window_calls ?s1)"
      proof (rule Suc.IH)
        show "children_have_parent ?its1"
          using Suc.prems(1) only_rects_links(1) [OF or1] by blast
        show "receivers_ok ?its1"
          using Suc.prems(2) only_rects_links(3) [OF or1] by blast
      qed (rule d, rule others)
      then have "returns_with (updateBoundingRect fuel p ?s1)
              (\<lambda>s'. boundingRects_ok (items s') \<and> only_rects ?its (items s')
                     \<and> window_calls s' = window_calls s)"
        by (rule returns_with_weaken)
           (auto intro: only_rects_trans [OF or1] simp: set_boundingRect_def)
      with False Cons ps show ?thesis
        by (simp add: Let_def)
    qed
  qed
qed

lemma same_links_refl [simp]: "same_links its its"
  by (simp add: same_links_def)

lemma same_links_trans: "same_links a b \<Longrightarrow> same_links b c \<Longrightarrow> same_links a c"
  by (simp add: same_links_def)

lemma only_rects_same_links: "only_rects its its' \<Longrightarrow> same_links its its'"
  by (simp add: same_links_def only_rects_fields)

lemma same_links_parents: "same_links its its' \<Longrightarrow> parents its' = parents its"
  by (auto simp: parents_def same_links_def)

lemma same_links_preserves:
  assumes "same_links its its'"
  shows "children_have_parent its' = children_have_parent its"
    and "parent_has_child its' = parent_has_child its"
    and "receivers_ok its' = receivers_ok its"
    and "item_links its' = item_links its"
  using assms
  by (simp_all add: children_have_parent_def parent_has_child_def receivers_ok_def
      item_links_def same_links_def cong: option.case_cong)

lemma keeps_links_same_links: "keeps_links f \<Longrightarrow> same_links its (its(i := f (its i)))"
  by (simp add: keeps_links_def same_links_def)

lemma rect_ok_upd:
  assumes "m_childItems it' = m_childItems (its i)"
    and "j = i \<Longrightarrow> rect it' = rect (its i) \<and> boundingRect it' = boundingRect (its i)"
    and "i \<in> set (m_childItems (its j)) \<Longrightarrow>
           boundingRect it' = boundingRect (its i) \<and> position it' = position (its i)"
  shows "rect_ok (its(i := it')) j = rect_ok its j"
proof -
  have "childrenBoundingRect (its(i := it')) j = childrenBoundingRect its j"
    using assms by (intro childrenBoundingRect_cong) auto
  moreover have "boundingRect ((its(i := it')) j) = boundingRect (its j)"
    using assms(2) by simp
  ultimately show ?thesis by (simp add: rect_ok_def)
qed

lemma emit_positionChanged_restores:
  assumes chp: "children_have_parent (items s)" and rcv: "receivers_ok (items s)"
    and fo: "forest (parents (items s)) fuel"
    and ok: "\<forall>j. i \<notin> set (m_childItems (items s j)) \<longrightarrow> rect_ok (items s) j"
  shows "returns_with (emit_positionChanged fuel i s)
           (\<lambda>s'. boundingRects_ok (items s') \<and> only_rects (items s) (items s'))"
proof (cases "receivers (items s i)")
  case Nil
  have "i \<notin> set (m_childItems (items s j))" for j
  proof
    assume c: "i \<in> set (m_childItems (items s j))"
    with chp have "m_parentItem (items s i) = Some j"
      by (simp add: children_have_parent_def)
    with rcv c have "receivers (items s i) = [j]"
      by (simp add: receivers_ok_def)
    with Nil show False by simp
  qed
  with ok have "boundingRects_ok (items s)"
    by (simp add: boundingRects_ok_def)
  with Nil show ?thesis by (simp add: emit_positionChanged_def)
next
  case (Cons p ps)
  from rcv have "receivers (items s i) =
      (case m_parentItem (items s i) of None \<Rightarrow> []
       | Some q \<Rightarrow> if i \<in> set (m_childItems (items s q)) then [q] else [])"
    by (simp add: receivers_ok_def)
  with Cons have par: "m_parentItem (items s i) = Some p" and ps: "ps = []"
    by (auto split: option.splits if_splits)
  have others: "\<forall>j. j \<noteq> p \<longrightarrow> rect_ok (items s) j"
  proof (intro allI impI)
    fix j assume "j \<noteq> p"
    with chp par have "i \<notin> set (m_childItems (items s j))"
      by (auto simp: children_have_parent_def)
    with ok show "rect_ok (items s) j" by simp
  qed
  have "depth_lt (parents (items s)) fuel p"
    using fo by (simp add: forest_def)
  from updateBoundingRect_restores [OF chp rcv this others]
  have "returns_with (updateBoundingRect fuel p s)
          (\<lambda>s'. boundingRects_ok (items s') \<and> only_rects (items s) (items s'))"
    by (rule returns_with_weaken) simp
  with Cons ps show ?thesis by (simp add: emit_positionChanged_def)
qed

lemma resize_with_restores:
  assumes chp: "children_have_parent (items s)" and rcv: "receivers_ok (items s)"
    and fo: "forest (parents (items s)) fuel"
    and ok: "boundingRects_ok (items s)"
    and f: "keeps_links f" and pos: "position (f (items s i)) = position (items s i)"
  shows "returns_with (resize_with fuel i f s) (kept fuel (items s))"
  unfolding resize_with_def
proof (rule returns_with_and_then [OF scheduleRepaint_returns [OF fo]])
  fix s1 :: item_store assume s1: "items s1 = items s"
  let ?s2 = "upd_item i f s1"
  have sl2: "same_links (items s) (items ?s2)"
    using keeps_links_same_links [OF f, of "items s" i] s1 by simp
  have chp2: "children_have_parent (items ?s2)" and rcv2: "receivers_ok (items ?s2)"
    using chp rcv same_links_preserves [OF sl2] by simp_all
  have fo2: "forest (parents (items ?s2)) fuel"
    using fo same_links_parents [OF sl2] by simp
  have others: "\<forall>j. j \<noteq> i \<longrightarrow> rect_ok (items ?s2) j"
  proof (intro allI impI)
    fix j assume "j \<noteq> i"
    then have "rect_ok ((items s)(i := f (items s i))) j = rect_ok (items s) j"
      using f pos by (intro rect_ok_upd) (simp_all add: keeps_links_def boundingRect_def)
    with ok s1 show "rect_ok (items ?s2) j"
      by (simp add: boundingRects_ok_def)
  qed
  have d: "depth_lt (parents (items ?s2)) fuel i"
    using fo2 by (simp add: forest_def)
  show "returns_with
          (let s2 = ?s2 in
           and_then (updateBoundingRect fuel i s2) (\<lambda>s3.
           and_then (scheduleRepaint fuel i (rect (items s3 i)) s3) (\<lambda>s4.
           Returns (discardQuads i s4))))
          (kept fuel (items s))"
    unfolding Let_def
  proof (rule returns_with_and_then [OF updateBoundingRect_restores [OF chp2 rcv2 d others]])
    fix s3 :: item_store
    assume a3: "boundingRects_ok (items s3) \<and> only_rects (items ?s2) (items s3)
                \<and> window_calls s3 = window_calls ?s2"
    then have sl3: "same_links (items s) (items s3)"
      using sl2 only_rects_same_links same_links_trans by blast
    have fo3: "forest (parents (items s3)) fuel"
      using fo same_links_parents [OF sl3] by simp
    show "returns_with
            (and_then (scheduleRepaint fuel i (rect (items s3 i)) s3) (\<lambda>s4. Returns (discardQuads i s4)))
            (kept fuel (items s))"
    proof (rule returns_with_and_then [OF scheduleRepaint_returns [OF fo3]])
      fix s4 :: item_store assume "items s4 = items s3"
      with a3 sl3 show "returns_with (Returns (discardQuads i s4)) (kept fuel (items s))"
        by (simp add: kept_def)
    qed
  qed
qed

lemma move_restores:
  assumes chp: "children_have_parent (items s)" and rcv: "receivers_ok (items s)"
    and fo: "forest (parents (items s)) fuel"
    and ok: "boundingRects_ok (items s)"
    and f: "keeps_links f" and rc: "rect (f (items s i)) = rect (items s i)"
    and s1: "items (s1::item_store) = (items s)(i := f (items s i))"
  shows "children_have_parent (items s1)" and "receivers_ok (items s1)"
    and "forest (parents (items s1)) fuel" and "same_links (items s) (items s1)"
    and "\<forall>j. i \<notin> set (m_childItems (items s1 j)) \<longrightarrow> rect_ok (items s1) j"
proof -
  show sl: "same_links (items s) (items s1)"
    using keeps_links_same_links [OF f, of "items s" i] s1 by simp
  show "children_have_parent (items s1)" and "receivers_ok (items s1)"
    using chp rcv same_links_preserves [OF sl] by simp_all
  show "forest (parents (items s1)) fuel"
    using fo same_links_parents [OF sl] by simp
  show "\<forall>j. i \<notin> set (m_childItems (items s1 j)) \<longrightarrow> rect_ok (items s1) j"
  proof (intro allI impI)
    fix j assume "i \<notin> set (m_childItems (items s1 j))"
    then have "i \<notin> set (m_childItems (items s j))"
      using sl by (simp add: same_links_def)
    then have "rect_ok ((items s)(i := f (items s i))) j = rect_ok (items s) j"
      using f rc by (intro rect_ok_upd) (simp_all add: keeps_links_def boundingRect_def)
    with ok s1 show "rect_ok (items s1) j"
      by (simp add: boundingRects_ok_def)
  qed
qed

lemma sched_step:
  "forest (parents (items s)) fuel \<Longrightarrow> (\<And>s1. items s1 = items s \<Longrightarrow> returns_with (k s1) P) \<Longrightarrow>
   returns_with (and_then (scheduleRepaint fuel i r s) k) P"
  by (rule returns_with_and_then [OF scheduleRepaint_returns])

lemma emit_kept:
  assumes chp: "children_have_parent (items s)" and rcv: "receivers_ok (items s)"
    and fo: "forest (parents (items s)) fuel"
    and sl: "same_links (items s) (items s4)"
    and ok: "\<forall>j. i \<notin> set (m_childItems (items s4 j)) \<longrightarrow> rect_ok (items s4) j"
  shows "returns_with (emit_positionChanged fuel i s4) (kept fuel (items s))"
proof -
  have "returns_with (emit_positionChanged fuel i s4)
          (\<lambda>s'. boundingRects_ok (items s') \<and> only_rects (items s4) (items s'))"
    using chp rcv fo same_links_preserves [OF sl] same_links_parents [OF sl] ok
    by (intro emit_positionChanged_restores) simp_all
  then show ?thesis
    by (rule returns_with_weaken)
       (use sl in \<open>auto simp: kept_def intro: same_links_trans only_rects_same_links\<close>)
qed

lemma noop_upd_kept:
  assumes ok: "boundingRects_ok (items s)" and f: "keeps_links f"
    and pos: "position (f (items s i)) = position (items s i)"
    and rc: "rect (f (items s i)) = rect (items s i)"
  shows "kept fuel (items s) (upd_item i f s)"
proof -
  have "rect_ok ((items s)(i := f (items s i))) j = rect_ok (items s) j" for j
    using f pos rc by (intro rect_ok_upd) (simp_all add: keeps_links_def boundingRect_def)
  with ok have "boundingRects_ok (items (upd_item i f s))"
    by (simp add: boundingRects_ok_def)
  with keeps_links_same_links [OF f, of "items s" i] show ?thesis
    by (simp add: kept_def)
qed

lemma move_kept:
  assumes chp: "children_have_parent (items s)" and rcv: "receivers_ok (items s)"
    and fo: "forest (parents (items s)) fuel"
    and ok: "boundingRects_ok (items s)"
    and f: "keeps_links f" and rc: "rect (f (items s i)) = rect (items s i)"
    and k: "\<And>s4. same_links (items s) (items s4) \<Longrightarrow>
              \<forall>j. i \<notin> set (m_childItems (items s4 j)) \<longrightarrow> rect_ok (items s4) j \<Longrightarrow>
              returns_with (k s4) P"
  shows "returns_with
           (and_then (scheduleRepaint fuel i r s) (\<lambda>s1.
            and_then (scheduleRepaint fuel i (r' s1) (upd_item i f s1)) (\<lambda>s3.
            k (discardQuads i s3)))) P"
proof (rule sched_step [OF fo])
  fix s1 :: item_store assume s1: "items s1 = items s"
  have eq: "items (upd_item i f s1) = (items s)(i := f (items s i))"
    using s1 by simp
  note m = move_restores [OF chp rcv fo ok f rc eq]
  show "returns_with
          (and_then (scheduleRepaint fuel i (r' s1) (upd_item i f s1)) (\<lambda>s3. k (discardQuads i s3))) P"
  proof (rule sched_step [OF m(3)])
    fix s3 :: item_store assume s3: "items s3 = items (upd_item i f s1)"
    show "returns_with (k (discardQuads i s3)) P"
      using m(4,5) s3 by (intro k) simp_all
  qed
qed

lemma m_x_keeps_links [simp]: "keeps_links (\<lambda>it. it\<lparr>m_x := x\<rparr>)"
  and m_y_keeps_links [simp]: "keeps_links (\<lambda>it. it\<lparr>m_y := y\<rparr>)"
  and m_xy_keeps_links [simp]: "keeps_links (\<lambda>it. it\<lparr>m_x := x, m_y := y\<rparr>)"
  and width_keeps_links [simp]: "keeps_links (\<lambda>it. it\<lparr>m_widthValid := True, m_width := w\<rparr>)"
  and height_keeps_links [simp]: "keeps_links (\<lambda>it. it\<lparr>m_heightValid := True, m_height := h\<rparr>)"
  and implicitWidth_keeps_links [simp]: "keeps_links (\<lambda>it. it\<lparr>m_implicitWidth := w\<rparr>)"
  and implicitHeight_keeps_links [simp]: "keeps_links (\<lambda>it. it\<lparr>m_implicitHeight := h\<rparr>)"
  and implicitSize_keeps_links [simp]:
    "keeps_links (\<lambda>it. it\<lparr>m_implicitWidth := w, m_implicitHeight := h\<rparr>)"
  and size_keeps_links [simp]:
    "keeps_links (\<lambda>it. it\<lparr>m_width := w, m_widthValid := True, m_height := h, m_heightValid := True\<rparr>)"
  by (simp_all add: keeps_links_def)

lemma setX_kept:
  assumes chp: "children_have_parent (items s)" and rcv: "receivers_ok (items s)"
    and fo: "forest (parents (items s)) fuel" and ok: "boundingRects_ok (items s)"
  shows "returns_with (setX fuel i x s) (kept fuel (items s))"
proof (cases "m_x (items s i) = x")
  case True
  with ok show ?thesis by (simp add: setX_def kept_def)
next
  case False
  have "returns_with
          (and_then (scheduleRepaint fuel i (boundingRect (items s i)) s) (\<lambda>s1.
           and_then (scheduleRepaint fuel i (boundingRect (items (upd_item i (\<lambda>it. it\<lparr>m_x := x\<rparr>) s1) i))
                       (upd_item i (\<lambda>it. it\<lparr>m_x := x\<rparr>) s1)) (\<lambda>s3.
           emit_positionChanged fuel i (discardQuads i s3))))
          (kept fuel (items s))"
    by (rule move_kept [OF chp rcv fo ok]) (simp_all add: rect_def item_width_def item_height_def
        emit_kept [OF chp rcv fo])
  with False show ?thesis by (simp add: setX_def Let_def)
qed

lemma setY_kept:
  assumes chp: "children_have_parent (items s)" and rcv: "receivers_ok (items s)"
    and fo: "forest (parents (items s)) fuel" and ok: "boundingRects_ok (items s)"
  shows "returns_with (setY fuel i y s) (kept fuel (items s))"
proof (cases "m_y (items s i) = y")
  case True
  with ok show ?thesis by (simp add: setY_def kept_def)
next
  case False
  have "returns_with
          (and_then (scheduleRepaint fuel i (boundingRect (items s i)) s) (\<lambda>s1.
           and_then (scheduleRepaint fuel i (boundingRect (items (upd_item i (\<lambda>it. it\<lparr>m_y := y\<rparr>) s1) i))
                       (upd_item i (\<lambda>it. it\<lparr>m_y := y\<rparr>) s1)) (\<lambda>s3.
           emit_positionChanged fuel i (discardQuads i s3))))
          (kept fuel (items s))"
    by (rule move_kept [OF chp rcv fo ok]) (simp_all add: rect_def item_width_def item_height_def
        emit_kept [OF chp rcv fo])
  with False show ?thesis by (simp add: setY_def Let_def)
qed

lemma setPosition_kept:
  assumes chp: "children_have_parent (items s)" and rcv: "receivers_ok (items s)"
    and fo: "forest (parents (items s)) fuel" and ok: "boundingRects_ok (items s)"
  shows "returns_with (setPosition fuel i point s) (kept fuel (items s))"
proof (cases "m_x (items s i) \<noteq> fst point \<or> m_y (items s i) \<noteq> snd point")
  case False
  then have "kept fuel (items s) (upd_item i (\<lambda>it. it\<lparr>m_x := fst point, m_y := snd point\<rparr>) s)"
    using ok by (intro noop_upd_kept) (simp_all add: position_def rect_def item_width_def item_height_def)
  with False show ?thesis by (simp add: setPosition_def Let_def)
next
  case True
  let ?f = "\<lambda>it. it\<lparr>m_x := fst point, m_y := snd point\<rparr>"
  let ?k = "\<lambda>s4. and_then (if m_x (items s i) \<noteq> fst point then emit_positionChanged fuel i s4 else Returns s4)
                    (\<lambda>s5. if m_y (items s i) \<noteq> snd point then emit_positionChanged fuel i s5 else Returns s5)"
  have second: "returns_with (if m_y (items s i) \<noteq> snd point then emit_positionChanged fuel i s5 else Returns s5)
                  (kept fuel (items s))"
    if "kept fuel (items s) s5" for s5
    using that emit_kept [OF chp rcv fo, of s5 i]
    by (auto simp: kept_def boundingRects_ok_def)
  have both: "returns_with (?k s4) (kept fuel (items s))"
    if sl: "same_links (items s) (items s4)"
      and r: "\<forall>j. i \<notin> set (m_childItems (items s4 j)) \<longrightarrow> rect_ok (items s4) j" for s4
  proof (cases "m_x (items s i) \<noteq> fst point")
    case xd: True
    have "returns_with (emit_positionChanged fuel i s4) (kept fuel (items s))"
      using chp rcv fo sl r by (rule emit_kept)
    then have "returns_with (and_then (emit_positionChanged fuel i s4)
                 (\<lambda>s5. if m_y (items s i) \<noteq> snd point then emit_positionChanged fuel i s5 else Returns s5))
                 (kept fuel (items s))"
      by (rule returns_with_and_then) (rule second)
    with xd show ?thesis by simp
  next
    case xc: False
    with True have yd: "m_y (items s i) \<noteq> snd point" by simp
    have "returns_with (emit_positionChanged fuel i s4) (kept fuel (items s))"
      using chp rcv fo sl r by (rule emit_kept)
    with xc yd show ?thesis by simp
  qed
  have "returns_with
          (and_then (scheduleRepaint fuel i (boundingRect (items s i)) s) (\<lambda>s1.
           and_then (scheduleRepaint fuel i (boundingRect (items (upd_item i ?f s1) i)) (upd_item i ?f s1)) (\<lambda>s3.
           ?k (discardQuads i s3))))
          (kept fuel (items s))"
    by (rule move_kept [OF chp rcv fo ok, where k = ?k])
       (simp_all add: rect_def item_width_def item_height_def both del: split_paired_All)
  with True show ?thesis by (simp add: setPosition_def Let_def)
qed

lemma setWidth_kept:
  assumes chp: "children_have_parent (items s)" and rcv: "receivers_ok (items s)"
    and fo: "forest (parents (items s)) fuel" and ok: "boundingRects_ok (items s)"
  shows "returns_with (setWidth fuel i w s) (kept fuel (items s))"
proof (cases "m_widthValid (items s i) \<and> m_width (items s i) = w")
  case True
  with ok show ?thesis by (simp add: setWidth_def kept_def)
next
  case False
  have "returns_with (resize_with fuel i (\<lambda>it. it\<lparr>m_widthValid := True, m_width := w\<rparr>) s) (kept fuel (items s))"
    by (rule resize_with_restores [OF chp rcv fo ok]) (simp_all add: position_def)
  with False show ?thesis by (auto simp: setWidth_def)
qed

lemma setHeight_kept:
  assumes chp: "children_have_parent (items s)" and rcv: "receivers_ok (items s)"
    and fo: "forest (parents (items s)) fuel" and ok: "boundingRects_ok (items s)"
  shows "returns_with (setHeight fuel i h s) (kept fuel (items s))"
proof (cases "m_heightValid (items s i) \<and> m_height (items s i) = h")
  case True
  with ok show ?thesis by (simp add: setHeight_def kept_def)
next
  case False
  have "returns_with (resize_with fuel i (\<lambda>it. it\<lparr>m_heightValid := True, m_height := h\<rparr>) s) (kept fuel (items s))"
    by (rule resize_with_restores [OF chp rcv fo ok]) (simp_all add: position_def)
  with False show ?thesis by (auto simp: setHeight_def)
qed

lemma setImplicitWidth_kept:
  assumes chp: "children_have_parent (items s)" and rcv: "receivers_ok (items s)"
    and fo: "forest (parents (items s)) fuel" and ok: "boundingRects_ok (items s)"
  shows "returns_with (setImplicitWidth fuel i w s) (kept fuel (items s))"
proof -
  have a: "returns_with (resize_with fuel i (\<lambda>it. it\<lparr>m_implicitWidth := w\<rparr>) s) (kept fuel (items s))"
    by (rule resize_with_restores [OF chp rcv fo ok]) (simp_all add: position_def)
  have b: "kept fuel (items s) (upd_item i (\<lambda>it. it\<lparr>m_implicitWidth := w\<rparr>) s)"
    if "m_widthValid (items s i)"
    using ok that by (intro noop_upd_kept) (simp_all add: position_def rect_def item_width_def item_height_def)
  show ?thesis
    using a b ok by (simp add: setImplicitWidth_def kept_def)
qed

lemma setImplicitHeight_kept:
  assumes chp: "children_have_parent (items s)" and rcv: "receivers_ok (items s)"
    and fo: "forest (parents (items s)) fuel" and ok: "boundingRects_ok (items s)"
  shows "returns_with (setImplicitHeight fuel i h s) (kept fuel (items s))"
proof -
  have a: "returns_with (resize_with fuel i (\<lambda>it. it\<lparr>m_implicitHeight := h\<rparr>) s) (kept fuel (items s))"
    by (rule resize_with_restores [OF chp rcv fo ok]) (simp_all add: position_def)
  have b: "kept fuel (items s) (upd_item i (\<lambda>it. it\<lparr>m_implicitHeight := h\<rparr>) s)"
    if "m_heightValid (items s i)"
    using ok that by (intro noop_upd_kept) (simp_all add: position_def rect_def item_width_def item_height_def)
  show ?thesis
    using a b ok by (simp add: setImplicitHeight_def kept_def)
qed

lemma setImplicitSize_kept:
  assumes chp: "children_have_parent (items s)" and rcv: "receivers_ok (items s)"
    and fo: "forest (parents (items s)) fuel" and ok: "boundingRects_ok (items s)"
  shows "returns_with (setImplicitSize fuel i sz s) (kept fuel (items s))"
proof -
  let ?f = "\<lambda>it. it\<lparr>m_implicitWidth := fst sz, m_implicitHeight := snd sz\<rparr>"
  have a: "returns_with (resize_with fuel i ?f s) (kept fuel (items s))"
    by (rule resize_with_restores [OF chp rcv fo ok]) (simp_all add: position_def)
  have b: "kept fuel (items s) (upd_item i ?f s)"
    if "\<not> (m_implicitWidth (items s i) \<noteq> fst sz \<and> \<not> m_widthValid (items s i))"
      and "\<not> (m_implicitHeight (items s i) \<noteq> snd sz \<and> \<not> m_heightValid (items s i))"
    using ok that by (intro noop_upd_kept) (auto simp: position_def rect_def item_width_def item_height_def)
  show ?thesis
    using a b by (auto simp: setImplicitSize_def Let_def)
qed

lemma setSize_kept:
  assumes chp: "children_have_parent (items s)" and rcv: "receivers_ok (items s)"
    and fo: "forest (parents (items s)) fuel" and ok: "boundingRects_ok (items s)"
  shows "returns_with (setSize fuel i sz s) (kept fuel (items s))"
proof -
  let ?f = "\<lambda>it. it\<lparr>m_width := fst sz, m_widthValid := True, m_height := snd sz, m_heightValid := True\<rparr>"
  have a: "returns_with (resize_with fuel i ?f s) (kept fuel (items s))"
    by (rule resize_with_restores [OF chp rcv fo ok]) (simp_all add: position_def)
  have b: "kept fuel (items s) (upd_item i ?f s)"
    if "item_width (items s i) = fst sz" and "item_height (items s i) = snd sz"
    using ok that by (intro noop_upd_kept) (auto simp: position_def rect_def item_width_def item_height_def)
  show ?thesis
    using a b by (auto simp: setSize_def Let_def)
qed

lemma same_links_loose: "same_links its its' \<Longrightarrow> loose c its' = loose c its"
  by (simp add: loose_def same_links_preserves) (simp add: same_links_def)

lemma none_detached:
  assumes l: "item_links its" and ok: "boundingRects_ok its" and n: "m_parentItem (its c) = None"
  shows "detached c its"
proof -
  have "c \<notin> set (m_childItems (its j))" for j
  proof
    assume "c \<in> set (m_childItems (its j))"
    with l have "m_parentItem (its c) = Some j"
      by (simp add: item_links_def children_have_parent_def)
    with n show False by simp
  qed
  moreover have "\<forall>d p. d \<noteq> c \<longrightarrow> m_parentItem (its d) = Some p \<longrightarrow> d \<in> set (m_childItems (its p))"
    using l by (simp add: item_links_def parent_has_child_def)
  ultimately show ?thesis
    using l ok by (simp add: detached_def loose_def item_links_def)
qed

lemma detached_reparent:
  assumes d: "detached c its"
  shows "detached c (its(c := (its c)\<lparr>m_parentItem := q\<rparr>))"
proof -
  let ?its' = "its(c := (its c)\<lparr>m_parentItem := q\<rparr>)"
  have nc: "\<And>j. c \<notin> set (m_childItems (its j))" using d by (simp add: detached_def loose_def)
  have ch: "\<And>j. m_childItems (?its' j) = m_childItems (its j)" by simp
  have rv: "\<And>j. receivers (?its' j) = receivers (its j)" by simp
  have pa: "\<And>j. j \<noteq> c \<Longrightarrow> m_parentItem (?its' j) = m_parentItem (its j)" by simp
  have chp0: "\<And>p e. e \<in> set (m_childItems (its p)) \<Longrightarrow> m_parentItem (its e) = Some p"
    using d by (simp add: detached_def loose_def children_have_parent_def)
  have chp: "children_have_parent ?its'"
    unfolding children_have_parent_def ch
  proof (intro allI impI)
    fix p e assume e: "e \<in> set (m_childItems (its p))"
    then have "e \<noteq> c" using nc by blast
    with chp0 [OF e] show "m_parentItem (?its' e) = Some p" by simp
  qed
  have rcv0: "\<And>i. receivers (its i) =
        (case m_parentItem (its i) of None \<Rightarrow> []
         | Some p \<Rightarrow> if i \<in> set (m_childItems (its p)) then [p] else [])"
    using d by (simp add: detached_def loose_def receivers_ok_def)
  have rc0: "receivers (its c) = []"
    using rcv0 [of c] nc by (simp split: option.splits)
  have rc: "receivers_ok ?its'"
    unfolding receivers_ok_def ch rv
  proof
    fix i
    show "receivers (its i) =
        (case m_parentItem (?its' i) of None \<Rightarrow> []
         | Some p \<Rightarrow> if i \<in> set (m_childItems (its p)) then [p] else [])"
    proof (cases "i = c")
      case True
      with rc0 nc show ?thesis by (simp split: option.splits)
    next
      case False
      with rcv0 [of i] show ?thesis by simp
    qed
  qed
  have ro: "rect_ok ?its' j = rect_ok its j" for j
    by (intro rect_ok_upd) (simp_all add: rect_def boundingRect_def position_def item_width_def item_height_def)
  have bo: "boundingRects_ok ?its'"
    using d ro by (simp add: detached_def boundingRects_ok_def)
  have di: "\<forall>p. distinct (m_childItems (?its' p))"
    unfolding ch using d by (simp add: detached_def loose_def)
  have ph: "\<forall>e p. e \<noteq> c \<longrightarrow> m_parentItem (?its' e) = Some p \<longrightarrow> e \<in> set (m_childItems (?its' p))"
    unfolding ch using d by (simp add: detached_def loose_def)
  have nc': "\<forall>j. c \<notin> set (m_childItems (?its' j))"
    unfolding ch using nc by blast
  show ?thesis
    unfolding detached_def loose_def using chp rc di bo nc' ph by blast
qed

lemma detached_links:
  assumes d: "detached c its" and n: "m_parentItem (its c) = None"
  shows "item_links its"
proof -
  have "parent_has_child its"
    unfolding parent_has_child_def
  proof (intro allI impI)
    fix e p assume p: "m_parentItem (its e) = Some p"
    with n have "e \<noteq> c" by auto
    with d p show "e \<in> set (m_childItems (its p))" by (simp add: detached_def loose_def)
  qed
  with d show ?thesis by (simp add: detached_def loose_def item_links_def)
qed

lemma removeChild_detaches:
  assumes l: "item_links (items s)" and fo: "forest (parents (items s)) fuel"
    and ok: "boundingRects_ok (items s)" and par: "m_parentItem (items s c) = Some old"
  shows "returns_with (removeChild dbg fuel old c s)
           (\<lambda>s'. detached c (items s') \<and> parents (items s') = parents (items s))"
proof -
  let ?its = "items s"
  have chp: "children_have_parent ?its" and phc: "parent_has_child ?its"
    and rcv: "receivers_ok ?its" and dist: "\<And>p. distinct (m_childItems (?its p))"
    using l by (simp_all add: item_links_def)
  have cin: "c \<in> set (m_childItems (?its old))"
    using phc par by (simp add: parent_has_child_def)
  have oc: "old \<noteq> c"
  proof
    assume "old = c"
    with par have "parents ?its c = Some c" by (simp add: parents_def)
    moreover have "depth_lt (parents ?its) fuel c" using fo by (simp add: forest_def)
    ultimately show False using depth_lt_not_self by blast
  qed
  have rc: "receivers (?its c) = [old]"
    using rcv par cin by (simp add: receivers_ok_def)
  let ?f = "\<lambda>it. it\<lparr>m_childItems := remove1 c (m_childItems it)\<rparr>"
  let ?g = "\<lambda>it. it\<lparr>receivers := removeAll old (receivers it)\<rparr>"
  let ?its3 = "(?its(old := ?f (?its old)))(c := ?g (?its c))"
  have ch3: "\<And>j. m_childItems (?its3 j) = (if j = old then remove1 c (m_childItems (?its old)) else m_childItems (?its j))"
    using oc by simp
  have pa3: "\<And>j. m_parentItem (?its3 j) = m_parentItem (?its j)"
    by simp
  have rv3: "\<And>j. receivers (?its3 j) = (if j = c then [] else receivers (?its j))"
    using oc rc by simp
  have set3: "\<And>j. set (m_childItems (?its3 j)) = set (m_childItems (?its j)) - {c}"
  proof -
    fix j
    show "set (m_childItems (?its3 j)) = set (m_childItems (?its j)) - {c}"
    proof (cases "j = old")
      case True
      then show ?thesis using dist [of old] oc by simp
    next
      case False
      have "c \<notin> set (m_childItems (?its j))"
      proof
        assume "c \<in> set (m_childItems (?its j))"
        with chp have "m_parentItem (?its c) = Some j" by (simp add: children_have_parent_def)
        with par False show False by simp
      qed
      with False show ?thesis using oc by simp
    qed
  qed
  have chp3: "children_have_parent ?its3"
    unfolding children_have_parent_def pa3 set3
    using chp by (simp add: children_have_parent_def)
  have rcv3: "receivers_ok ?its3"
    unfolding receivers_ok_def pa3 set3 rv3
  proof
    fix i
    show "(if i = c then [] else receivers (?its i)) =
          (case m_parentItem (?its i) of None \<Rightarrow> []
           | Some p \<Rightarrow> if i \<in> set (m_childItems (?its p)) - {c} then [p] else [])"
    proof (cases "i = c")
      case True
      then show ?thesis by (simp split: option.splits)
    next
      case False
      have "receivers (?its i) =
          (case m_parentItem (?its i) of None \<Rightarrow> []
           | Some p \<Rightarrow> if i \<in> set (m_childItems (?its p)) then [p] else [])"
        using rcv by (simp add: receivers_ok_def)
      with False show ?thesis by (simp split: option.splits)
    qed
  qed
  have dist3: "\<forall>p. distinct (m_childItems (?its3 p))"
    using dist oc by (simp add: distinct_remove1)
  have nc3: "\<forall>j. c \<notin> set (m_childItems (?its3 j))"
    using set3 by blast
  have phc3: "\<forall>d p. d \<noteq> c \<longrightarrow> m_parentItem (?its3 d) = Some p \<longrightarrow> d \<in> set (m_childItems (?its3 p))"
    unfolding pa3 set3 using phc by (simp add: parent_has_child_def)
  have loose3: "loose c ?its3"
    unfolding loose_def using chp3 rcv3 dist3 nc3 phc3 by blast
  have par3: "parents ?its3 = parents ?its"
    unfolding parents_def pa3 ..
  have others: "\<forall>j. j \<noteq> old \<longrightarrow> rect_ok ?its3 j"
  proof (intro allI impI)
    fix j assume jo: "j \<noteq> old"
    have "childrenBoundingRect ?its3 j = childrenBoundingRect ?its j"
    proof (rule childrenBoundingRect_cong)
      show "m_childItems (?its3 j) = m_childItems (?its j)" using jo by simp
      show "rect (?its3 j) = rect (?its j)"
        using jo by (simp add: rect_def item_width_def item_height_def)
      fix e assume "e \<in> set (m_childItems (?its j))"
      show "boundingRect (?its3 e) = boundingRect (?its e) \<and> position (?its3 e) = position (?its e)"
        by (simp add: boundingRect_def position_def)
    qed
    moreover have "boundingRect (?its3 j) = boundingRect (?its j)"
      using jo by (simp add: boundingRect_def)
    moreover have "rect_ok ?its j" using ok by (simp add: boundingRects_ok_def)
    ultimately show "rect_ok ?its3 j" by (simp add: rect_ok_def)
  qed
  have d3: "depth_lt (parents ?its3) fuel old"
    using fo par3 by (simp add: forest_def)
  have "returns_with
          (and_then (scheduleRepaint fuel old (translated (boundingRect (?its c)) (position (?its c))) s)
             (\<lambda>s1. and_then (updateBoundingRect fuel old (upd_item c ?g (upd_item old ?f s1)))
                      (\<lambda>s4. Returns (discardQuads old s4))))
          (\<lambda>s'. detached c (items s') \<and> parents (items s') = parents ?its)"
  proof (rule sched_step [OF fo])
    fix s1 :: item_store assume s1: "items s1 = ?its"
    let ?s3 = "upd_item c ?g (upd_item old ?f s1)"
    have i3: "items ?s3 = ?its3" using s1 oc by simp
    have "returns_with (updateBoundingRect fuel old ?s3)
            (\<lambda>s'. boundingRects_ok (items s') \<and> only_rects (items ?s3) (items s')
                   \<and> window_calls s' = window_calls ?s3)"
    proof (rule updateBoundingRect_restores)
      show "children_have_parent (items ?s3)" unfolding i3 by (rule chp3)
      show "receivers_ok (items ?s3)" unfolding i3 by (rule rcv3)
      show "depth_lt (parents (items ?s3)) fuel old" unfolding i3 by (rule d3)
      show "\<forall>j. j \<noteq> old \<longrightarrow> rect_ok (items ?s3) j" unfolding i3 by (rule others)
    qed
    then show "returns_with (and_then (updateBoundingRect fuel old ?s3) (\<lambda>s4. Returns (discardQuads old s4)))
                 (\<lambda>s'. detached c (items s') \<and> parents (items s') = parents ?its)"
    proof (rule returns_with_and_then)
      fix s4 :: item_store
      assume a: "boundingRects_ok (items s4) \<and> only_rects (items ?s3) (items s4)
                 \<and> window_calls s4 = window_calls ?s3"
      then have sl: "same_links ?its3 (items s4)"
        using only_rects_same_links i3 by metis
      have "loose c (items s4)" using same_links_loose [OF sl] loose3 by simp
      moreover have "parents (items s4) = parents ?its"
        using same_links_parents [OF sl] par3 by simp
      ultimately show "returns_with (Returns (discardQuads old s4))
                 (\<lambda>s'. detached c (items s') \<and> parents (items s') = parents ?its)"
        using a by (simp add: detached_def)
    qed
  qed
  with cin show ?thesis by (simp add: removeChild_def Let_def)
qed

lemma addChild_attaches:
  assumes d: "detached c (items s)" and par: "m_parentItem (items s c) = Some new"
    and fo: "forest (parents (items s)) fuel"
  shows "returns_with (addChild dbg fuel new c s)
           (\<lambda>s'. item_links (items s') \<and> parents (items s') = parents (items s)
                  \<and> boundingRects_ok (items s'))"
proof -
  let ?its = "items s"
  have chp: "children_have_parent ?its" and rcv: "receivers_ok ?its"
    and dist: "\<And>p. distinct (m_childItems (?its p))"
    and nc: "\<And>j. c \<notin> set (m_childItems (?its j))"
    and phc: "\<And>e p. e \<noteq> c \<Longrightarrow> m_parentItem (?its e) = Some p \<Longrightarrow> e \<in> set (m_childItems (?its p))"
    and ok: "boundingRects_ok ?its"
    using d by (simp_all add: detached_def loose_def)
  have nw: "new \<noteq> c"
  proof
    assume "new = c"
    with par have "parents ?its c = Some c" by (simp add: parents_def)
    moreover have "depth_lt (parents ?its) fuel c" using fo by (simp add: forest_def)
    ultimately show False using depth_lt_not_self by blast
  qed
  have rcv0: "\<And>i. receivers (?its i) =
        (case m_parentItem (?its i) of None \<Rightarrow> []
         | Some p \<Rightarrow> if i \<in> set (m_childItems (?its p)) then [p] else [])"
    using rcv by (simp add: receivers_ok_def)
  have rc: "receivers (?its c) = []"
    using rcv0 [of c] nc par by simp
  let ?g = "\<lambda>it. it\<lparr>receivers := receivers it @ [new]\<rparr>"
  let ?f = "\<lambda>it. it\<lparr>m_childItems := m_childItems it @ [c]\<rparr>"
  let ?its2 = "(?its(c := ?g (?its c)))(new := ?f (?its new))"
  have pa2: "\<And>j. m_parentItem (?its2 j) = m_parentItem (?its j)"
    by simp
  have rv2: "\<And>j. receivers (?its2 j) = (if j = c then [new] else receivers (?its j))"
    using nw rc by simp
  have set2: "\<And>j. set (m_childItems (?its2 j)) = (if j = new then insert c (set (m_childItems (?its j))) else set (m_childItems (?its j)))"
    using nw by simp
  have chp2: "children_have_parent ?its2"
    unfolding children_have_parent_def pa2 set2
    using chp par by (auto simp: children_have_parent_def)
  have rcv2: "receivers_ok ?its2"
    unfolding receivers_ok_def pa2 set2 rv2
  proof
    fix i
    show "(if i = c then [new] else receivers (?its i)) =
          (case m_parentItem (?its i) of None \<Rightarrow> []
           | Some p \<Rightarrow> if i \<in> (if p = new then insert c (set (m_childItems (?its p))) else set (m_childItems (?its p)))
                       then [p] else [])"
    proof (cases "i = c")
      case True
      with par show ?thesis by simp
    next
      case False
      with rcv0 [of i] show ?thesis by (simp split: option.splits)
    qed
  qed
  have dist2: "\<forall>p. distinct (m_childItems (?its2 p))"
    using dist nc nw by simp
  have phc2: "parent_has_child ?its2"
    unfolding parent_has_child_def pa2 set2
  proof (intro allI impI)
    fix e p assume p: "m_parentItem (?its e) = Some p"
    show "e \<in> (if p = new then insert c (set (m_childItems (?its p))) else set (m_childItems (?its p)))"
    proof (cases "e = c")
      case True
      with p par show ?thesis by simp
    next
      case False
      from phc [OF False p] show ?thesis by auto
    qed
  qed
  have links2: "item_links ?its2"
    unfolding item_links_def using chp2 phc2 rcv2 dist2 by blast
  have par2: "parents ?its2 = parents ?its"
    unfolding parents_def pa2 ..
  have others: "\<forall>j. j \<noteq> new \<longrightarrow> rect_ok ?its2 j"
  proof (intro allI impI)
    fix j assume jo: "j \<noteq> new"
    have "childrenBoundingRect ?its2 j = childrenBoundingRect ?its j"
    proof (rule childrenBoundingRect_cong)
      show "m_childItems (?its2 j) = m_childItems (?its j)" using jo by simp
      show "rect (?its2 j) = rect (?its j)"
        using jo by (simp add: rect_def item_width_def item_height_def)
      fix e assume "e \<in> set (m_childItems (?its j))"
      show "boundingRect (?its2 e) = boundingRect (?its e) \<and> position (?its2 e) = position (?its e)"
        by (simp add: boundingRect_def position_def)
    qed
    moreover have "boundingRect (?its2 j) = boundingRect (?its j)"
      using jo by (simp add: boundingRect_def)
    moreover have "rect_ok ?its j" using ok by (simp add: boundingRects_ok_def)
    ultimately show "rect_ok ?its2 j" by (simp add: rect_ok_def)
  qed
  have d2: "depth_lt (parents ?its2) fuel new"
    using fo par2 by (simp add: forest_def)
  let ?s2 = "upd_item new ?f (upd_item c ?g s)"
  have i2: "items ?s2 = ?its2" using nw by simp
  have upd: "returns_with (updateBoundingRect fuel new ?s2)
          (\<lambda>s'. boundingRects_ok (items s') \<and> only_rects (items ?s2) (items s')
                 \<and> window_calls s' = window_calls ?s2)"
  proof (rule updateBoundingRect_restores)
    show "children_have_parent (items ?s2)" unfolding i2 by (rule chp2)
    show "receivers_ok (items ?s2)" unfolding i2 by (rule rcv2)
    show "depth_lt (parents (items ?s2)) fuel new" unfolding i2 by (rule d2)
    show "\<forall>j. j \<noteq> new \<longrightarrow> rect_ok (items ?s2) j" unfolding i2 by (rule others)
  qed
  have "returns_with
          (and_then (updateBoundingRect fuel new ?s2) (\<lambda>s3.
           and_then (scheduleRepaint fuel new
                       (translated (boundingRect (items s3 c)) (position (items s3 c))) s3) (\<lambda>s4.
           Returns (discardQuads new s4))))
          (\<lambda>s'. item_links (items s') \<and> parents (items s') = parents ?its \<and> boundingRects_ok (items s'))"
    using upd
  proof (rule returns_with_and_then)
    fix s3 :: item_store
    assume a: "boundingRects_ok (items s3) \<and> only_rects (items ?s2) (items s3)
               \<and> window_calls s3 = window_calls ?s2"
    then have sl: "same_links ?its2 (items s3)"
      using only_rects_same_links i2 by metis
    have l3: "item_links (items s3)" using same_links_preserves(4) [OF sl] links2 by simp
    have p3: "parents (items s3) = parents ?its"
      using same_links_parents [OF sl] par2 by simp
    have fo3: "forest (parents (items s3)) fuel" using fo p3 by simp
    show "returns_with
            (and_then (scheduleRepaint fuel new
                         (translated (boundingRect (items s3 c)) (position (items s3 c))) s3)
               (\<lambda>s4. Returns (discardQuads new s4)))
            (\<lambda>s'. item_links (items s') \<and> parents (items s') = parents ?its \<and> boundingRects_ok (items s'))"
    proof (rule sched_step [OF fo3])
      fix s4 :: item_store assume "items s4 = items s3"
      with a l3 p3 show "returns_with (Returns (discardQuads new s4))
            (\<lambda>s'. item_links (items s') \<and> parents (items s') = parents ?its \<and> boundingRects_ok (items s'))"
        by simp
    qed
  qed
  with nc [of new] show ?thesis by (simp add: addChild_def Let_def)
qed

lemma setParentItem_kept:
  assumes l: "item_links (items s)" and fo: "forest (parents (items s)) fuel"
    and ok: "boundingRects_ok (items s)"
    and fo': "forest ((parents (items s))(c := q)) fuel"
  shows "returns_with (setParentItem dbg fuel c q s)
           (\<lambda>s'. item_links (items s') \<and> parents (items s') = (parents (items s))(c := q)
                  \<and> boundingRects_ok (items s'))"
proof (cases "m_parentItem (items s c) = q")
  case True
  then have "(parents (items s))(c := q) = parents (items s)"
    by (auto simp: parents_def)
  with True l ok show ?thesis by (simp add: setParentItem_def)
next
  case False
  let ?Q = "\<lambda>s'. detached c (items s') \<and> parents (items s') = parents (items s)"
  have first: "returns_with (case m_parentItem (items s c) of
                    Some old \<Rightarrow> removeChild dbg fuel old c s
                  | None \<Rightarrow> Returns s) ?Q"
  proof (cases "m_parentItem (items s c)")
    case None
    with none_detached [OF l ok None] show ?thesis by simp
  next
    case (Some old)
    with removeChild_detaches [OF l fo ok Some] show ?thesis by simp
  qed
  have "returns_with
          (and_then (case m_parentItem (items s c) of
                    Some old \<Rightarrow> removeChild dbg fuel old c s
                  | None \<Rightarrow> Returns s) (\<lambda>s1.
           case q of
             Some new \<Rightarrow> addChild dbg fuel new c (upd_item c (\<lambda>it. it\<lparr>m_parentItem := q\<rparr>) s1)
           | None \<Rightarrow> Returns (upd_item c (\<lambda>it. it\<lparr>m_parentItem := q\<rparr>) s1)))
          (\<lambda>s'. item_links (items s') \<and> parents (items s') = (parents (items s))(c := q)
                  \<and> boundingRects_ok (items s'))"
    using first
  proof (rule returns_with_and_then)
    fix s1 :: item_store
    assume a: "detached c (items s1) \<and> parents (items s1) = parents (items s)"
    let ?s2 = "upd_item c (\<lambda>it. it\<lparr>m_parentItem := q\<rparr>) s1"
    have i2: "items ?s2 = (items s1)(c := (items s1 c)\<lparr>m_parentItem := q\<rparr>)" by simp
    have d2: "detached c (items ?s2)"
      unfolding i2 using a by (intro detached_reparent) simp
    have p2: "parents (items ?s2) = (parents (items s))(c := q)"
      using a by (auto simp: parents_def fun_eq_iff)
    have fo2: "forest (parents (items ?s2)) fuel" using fo' p2 by simp
    have pc: "m_parentItem (items ?s2 c) = q" by simp
    show "returns_with
            (case q of
               Some new \<Rightarrow> addChild dbg fuel new c ?s2
             | None \<Rightarrow> Returns ?s2)
            (\<lambda>s'. item_links (items s') \<and> parents (items s') = (parents (items s))(c := q)
                   \<and> boundingRects_ok (items s'))"
    proof (cases q)
      case None
      with pc have "item_links (items ?s2)" using detached_links [OF d2] by simp
      with None d2 p2 show ?thesis by (simp add: detached_def del: items_upd_item)
    next
      case (Some new)
      with pc have "m_parentItem (items ?s2 c) = Some new" by simp
      from addChild_attaches [OF d2 this fo2, of dbg] p2 Some show ?thesis
        by (simp del: items_upd_item)
    qed
  qed
  with False show ?thesis by (simp add: setParentItem_def Let_def)
qed

lemma stays_forest_forest: "stays_forest n ops par \<Longrightarrow> forest par n"
  by (cases ops) simp_all

lemma kept_links:
  assumes "returns_with m (kept fuel its)" and "item_links its"
  shows "returns_with m (\<lambda>s'. item_links (items s') \<and> parents (items s') = parents its
                               \<and> boundingRects_ok (items s'))"
  using assms(1)
proof (rule returns_with_weaken)
  fix s' :: item_store
  assume "kept fuel its s'"
  then have sl: "same_links its (items s')" and ok: "boundingRects_ok (items s')"
    by (simp_all add: kept_def)
  from same_links_preserves(4) [OF sl] same_links_parents [OF sl] assms(2) ok
  show "item_links (items s') \<and> parents (items s') = parents its \<and> boundingRects_ok (items s')"
    by simp
qed

lemma apply_op_kept:
  assumes l: "item_links (items s)" and fo: "forest (parents (items s)) fuel"
    and ok: "boundingRects_ok (items s)"
    and fo': "forest (parents_after a (parents (items s))) fuel"
  shows "returns_with (apply_op dbg fuel a s)
           (\<lambda>s'. item_links (items s') \<and> parents (items s') = parents_after a (parents (items s))
                  \<and> boundingRects_ok (items s'))"
proof -
  have chp: "children_have_parent (items s)" and rcv: "receivers_ok (items s)"
    using l by (simp_all add: item_links_def)
  show ?thesis
  proof (cases a)
    case (SetParentItem c q)
    with setParentItem_kept [OF l fo ok, of c q dbg] fo' show ?thesis by simp
  next
    case (SetX i x)
    with kept_links [OF setX_kept [OF chp rcv fo ok] l] show ?thesis by simp
  next
    case (SetY i y)
    with kept_links [OF setY_kept [OF chp rcv fo ok] l] show ?thesis by simp
  next
    case (SetPosition i p)
    with kept_links [OF setPosition_kept [OF chp rcv fo ok] l] show ?thesis by simp
  next
    case (SetWidth i w)
    with kept_links [OF setWidth_kept [OF chp rcv fo ok] l] show ?thesis by simp
  next
    case (SetHeight i h)
    with kept_links [OF setHeight_kept [OF chp rcv fo ok] l] show ?thesis by simp
  next
    case (SetSize i sz)
    with kept_links [OF setSize_kept [OF chp rcv fo ok] l] show ?thesis by simp
  next
    case (SetImplicitWidth i w)
    with kept_links [OF setImplicitWidth_kept [OF chp rcv fo ok] l] show ?thesis by simp
  next
    case (SetImplicitHeight i h)
    with kept_links [OF setImplicitHeight_kept [OF chp rcv fo ok] l] show ?thesis by simp
  next
    case (SetImplicitSize i sz)
    with kept_links [OF setImplicitSize_kept [OF chp rcv fo ok] l] show ?thesis by simp
  qed
qed

lemma boundingRects_ok_unfold:
  "boundingRects_ok its =
     (\<forall>i. boundingRect (its i) =
        foldl (\<lambda>br c. united br (translated (boundingRect (its c)) (position (its c))))
          (rect (its i)) (m_childItems (its i)))"
  unfolding boundingRects_ok_def rect_ok_def childrenBoundingRect_def by (rule refl)

lemma apply_ops_kept:
  assumes "item_links (items s)" and "boundingRects_ok (items s)"
    and "stays_forest fuel ops (parents (items s))"
  shows "returns_with (apply_ops dbg fuel ops s)
           (\<lambda>s'. item_links (items s') \<and> boundingRects_ok (items s'))"
  using assms
proof (induction ops arbitrary: s)
  case Nil
  then show ?case by simp
next
  case (Cons a as)
  from Cons.prems(3) have fo: "forest (parents (items s)) fuel"
    and rest: "stays_forest fuel as (parents_after a (parents (items s)))"
    by simp_all
  from rest have fo': "forest (parents_after a (parents (items s))) fuel"
    by (rule stays_forest_forest)
  have "returns_with (and_then (apply_op dbg fuel a s) (apply_ops dbg fuel as))
          (\<lambda>s'. item_links (items s') \<and> boundingRects_ok (items s'))"
  proof (rule returns_with_and_then [OF apply_op_kept [OF Cons.prems(1) fo Cons.prems(2) fo']])
    fix s1 :: item_store
    assume a: "item_links (items s1) \<and> parents (items s1) = parents_after a (parents (items s))
               \<and> boundingRects_ok (items s1)"
    with rest have "stays_forest fuel as (parents (items s1))" by simp
    with a show "returns_with (apply_ops dbg fuel as s1)
                   (\<lambda>s'. item_links (items s') \<and> boundingRects_ok (items s'))"
      by (intro Cons.IH) simp_all
  qed
  then show ?case by simp
qed

text \<open>
  The operations that recompute the bounding rect. Start from items that are linked as
  \<^verbatim>\<open>setParentItem\<close> links them and
  that satisfy the bounding-rect invariant, and run any finite sequence of \<^verbatim>\<open>setX\<close>,
  \<^verbatim>\<open>setY\<close>, \<^verbatim>\<open>setPosition\<close>, \<^verbatim>\<open>setWidth\<close>, \<^verbatim>\<open>setHeight\<close>,
  \<^verbatim>\<open>setSize\<close>, \<^verbatim>\<open>setImplicitWidth\<close>, \<^verbatim>\<open>setImplicitHeight\<close>,
  \<^verbatim>\<open>setImplicitSize\<close> and \<^verbatim>\<open>setParentItem\<close> (which removes the item from its old
  parent and adds it to the new one) that keeps the items a forest of trees. Then every
  operation returns, no assertion fails, and afterwards every item's bounding rect is its own
  rect united with each child's bounding rect translated by that child's position.
\<close>

theorem boundingRect_invariant:
  assumes "item_links (items s)" and "boundingRects_ok (items s)"
    and "stays_forest fuel ops (parents (items s))"
  shows "\<exists>s'. apply_ops dbg fuel ops s = Returns s'
              \<and> (\<forall>i. boundingRect (items s' i) =
                    foldl (\<lambda>br c. united br (translated (boundingRect (items s' c)) (position (items s' c))))
                      (rect (items s' i)) (m_childItems (items s' i)))"
proof -
  from apply_ops_kept [OF assms, of dbg]
  obtain s' where "apply_ops dbg fuel ops s = Returns s'" and "boundingRects_ok (items s')"
    by (blast dest: returns_withD)
  then show ?thesis
    unfolding boundingRects_ok_unfold by blast
qed



lemma empty_store_ok:
  "item_links (items empty_store)" "boundingRects_ok (items empty_store)"
  "parents (items empty_store) = (\<lambda>i. None)"
  by (simp_all add: empty_store_def item_links_def children_have_parent_def parent_has_child_def
      receivers_ok_def Item_new_def boundingRects_ok_def rect_ok_def childrenBoundingRect_def
      boundingRect_def rect_def QRect_at_def QRect_default_def item_width_def item_height_def parents_def)

lemma forest_examples:
  "forest (\<lambda>i. None) 3"
  "forest ((\<lambda>i. None)(Suc 0 := Some 0)) 3"
  "forest ((\<lambda>i. None)(Suc 0 := Some 0, 2 := Some (Suc 0))) 3"
  by (simp_all add: forest_def numeral_3_eq_3)

theorem boundingRect_invariant_witness:
  "item_links (items empty_store) \<and> boundingRects_ok (items empty_store)
   \<and> stays_forest 3 [SetParentItem 1 (Some 0), SetSize 1 (10, 20), SetPosition 1 (5, 5),
                      SetParentItem 2 (Some 1), SetSize 2 (100, 1), SetX 2 50] (parents (items empty_store))
   \<and> (\<exists>s'. apply_ops True 3 [SetParentItem 1 (Some 0), SetSize 1 (10, 20), SetPosition 1 (5, 5),
                      SetParentItem 2 (Some 1), SetSize 2 (100, 1), SetX 2 50] empty_store = Returns s'
          \<and> (\<forall>i. boundingRect (items s' i) =
                    foldl (\<lambda>br c. united br (translated (boundingRect (items s' c)) (position (items s' c))))
                      (rect (items s' i)) (m_childItems (items s' i))))"
proof -
  have sf: "stays_forest 3 [SetParentItem 1 (Some 0), SetSize 1 (10, 20), SetPosition 1 (5, 5),
                      SetParentItem 2 (Some 1), SetSize 2 (100, 1), SetX 2 50] (parents (items empty_store))"
    by (simp add: empty_store_ok(3) forest_examples)
  from boundingRect_invariant [OF empty_store_ok(1,2) sf, of True] empty_store_ok(1,2) sf
  show ?thesis by blast
qed

lemma example_run:
  "(case apply_ops True 3 [SetParentItem 1 (Some 0), SetSize 1 (10, 20), SetPosition 1 (5, 5),
                      SetParentItem 2 (Some 1), SetSize 2 (100, 1), SetX 2 50] empty_store of
      Returns s' \<Rightarrow> map (\<lambda>i. boundingRect (items s' i)) [0, 1, 2] = [QRect 5 5 154 24, QRect 0 0 149 19, QRect 0 0 99 0]
    | _ \<Rightarrow> False)"
  by code_simp

text \<open>
  Claim C6. The invariant is meant to hold after every geometry mutation.
  \<^verbatim>\<open>resetWidth\<close> (\<^verbatim>\<open>resetHeight\<close>) marks the explicit width (height) invalid, which
  changes \<^verbatim>\<open>rect()\<close>, and then calls \<^verbatim>\<open>setImplicitWidth\<close> (\<^verbatim>\<open>setImplicitHeight\<close>)
  with the value already stored; that call returns at its first guard, so
  \<^verbatim>\<open>updateBoundingRect\<close> never runs. A fresh item without children is given the size
  10x5, which makes its rect and bounding rect (0,0)-(9,4); after \<^verbatim>\<open>resetWidth\<close> its rect
  is the empty-width (0,0)-(-1,4) while the stored bounding rect is still (0,0)-(9,4), and
  likewise for \<^verbatim>\<open>resetHeight\<close>.
\<close>

theorem resetWidth_stale_boundingRect:
  "(case setSize 1 0 (10, 5) empty_store of
      Returns s \<Rightarrow>
        rect (items s 0) = QRect 0 0 9 4 \<and> boundingRect (items s 0) = QRect 0 0 9 4
        \<and> rect_ok (items s) 0
        \<and> (case resetWidth 1 0 s of
              Returns s' \<Rightarrow>
                m_childItems (items s' 0) = [] \<and> rect (items s' 0) = QRect 0 0 (- 1) 4
                \<and> boundingRect (items s' 0) = QRect 0 0 9 4 \<and> \<not> rect_ok (items s') 0
                \<and> window_calls s' = window_calls s
            | _ \<Rightarrow> False)
        \<and> (case resetHeight 1 0 s of
              Returns s' \<Rightarrow>
                m_childItems (items s' 0) = [] \<and> rect (items s' 0) = QRect 0 0 9 (- 1)
                \<and> boundingRect (items s' 0) = QRect 0 0 9 4 \<and> \<not> rect_ok (items s') 0
                \<and> window_calls s' = window_calls s
            | _ \<Rightarrow> False)
    | _ \<Rightarrow> False)"
  by code_simp

text \<open>
  In every state \<^verbatim>\<open>resetWidth\<close> and \<^verbatim>\<open>resetHeight\<close> clear the flag and do nothing
  else: no bounding rect is recomputed, no repaint is scheduled and no signal is emitted,
  although \<^verbatim>\<open>rect()\<close> changes whenever the explicit size differs from the implicit one.
\<close>

lemma resetWidth_only_clears_flag:
  "resetWidth fuel i s = Returns (upd_item i (\<lambda>it. it\<lparr>m_widthValid := False\<rparr>) s)"
  by (simp add: resetWidth_def setImplicitWidth_def upd_item_def Let_def)

lemma resetHeight_only_clears_flag:
  "resetHeight fuel i s = Returns (upd_item i (\<lambda>it. it\<lparr>m_heightValid := False\<rparr>) s)"
  by (simp add: resetHeight_def setImplicitHeight_def upd_item_def Let_def)

text \<open>
  Claim C10. \<^verbatim>\<open>stackChildren\<close> is meant to leave the child order alone when the list is
  not a permutation of the current children. It checks the length of the list and, in debug
  builds, that every element has this item as parent; a list that repeats one child passes
  both checks. Item 0 with children \<open>[1, 2]\<close>, built by two \<^verbatim>\<open>setParentItem\<close> calls,
  gets the child list \<open>[1, 1]\<close> installed, in debug and in release builds.
\<close>

theorem stackChildren_installs_duplicate:
  "mset [1, 1 :: nat] \<noteq> mset [1, 2]
   \<and> (case apply_ops True 2 [SetParentItem 1 (Some 0), SetParentItem 2 (Some 0)] empty_store of
        Returns s \<Rightarrow> m_childItems (items s 0) = [1, 2] \<and>
          (case stackChildren True 0 [1, 1] s of
             Returns s' \<Rightarrow> m_childItems (items s' 0) = [1, 1] | _ \<Rightarrow> False) \<and>
          (case stackChildren False 0 [1, 1] s of
             Returns s' \<Rightarrow> m_childItems (items s' 0) = [1, 1] | _ \<Rightarrow> False)
      | _ \<Rightarrow> False)"
proof -
  have "mset [1, 1 :: nat] \<noteq> mset [1, 2]" by simp
  moreover have "(case apply_ops True 2 [SetParentItem 1 (Some 0), SetParentItem 2 (Some 0)] empty_store of
        Returns s \<Rightarrow> m_childItems (items s 0) = [1, 2] \<and>
          (case stackChildren True 0 [1, 1] s of
             Returns s' \<Rightarrow> m_childItems (items s' 0) = [1, 1] | _ \<Rightarrow> False) \<and>
          (case stackChildren False 0 [1, 1] s of
             Returns s' \<Rightarrow> m_childItems (items s' 0) = [1, 1] | _ \<Rightarrow> False)
      | _ \<Rightarrow> False)"
    by code_simp
  ultimately show ?thesis by blast
qed

text \<open>What the two checks of \<^verbatim>\<open>stackChildren\<close> do reject.\<close>

lemma stackChildren_length_mismatch:
  "length children \<noteq> length (m_childItems (items s this)) \<Longrightarrow> stackChildren dbg this children s = Returns s"
  by (auto simp: stackChildren_def)

lemma stackChildren_debug_foreign:
  "length children = length (m_childItems (items s this)) \<Longrightarrow>
   item \<in> set children \<Longrightarrow> m_parentItem (items s item) \<noteq> Some this \<Longrightarrow>
   stackChildren True this children s = Aborts"
  by (auto simp: stackChildren_def list_all_iff)

section \<open>Properties of the output presentation state machine\<close>

lemma commits_call [simp]: "commits (call c s) = (if is_commit c then commits s @ [c] else commits s)"
  by (simp add: commits_def call_def)

lemma commits_update [simp]:
  "commits (s\<lparr>m_pageFlipPending := a\<rparr>) = commits s"
  "commits (s\<lparr>m_atomicOffPending := b\<rparr>) = commits s"
  "commits (s\<lparr>m_modesetRequested := c\<rparr>) = commits s"
  "commits (s\<lparr>m_dpmsModePending := d\<rparr>) = commits s"
  "commits (s\<lparr>m_dpmsMode := e\<rparr>) = commits s"
  "commits (s\<lparr>m_mode := f\<rparr>) = commits s"
  "commits (s\<lparr>crtc_current := g\<rparr>) = commits s"
  "commits (s\<lparr>crtc_next := h\<rparr>) = commits s"
  "commits (s\<lparr>m_primaryPlane := i\<rparr>) = commits s"
  "commits (s\<lparr>m_nextPlanesFlipList := j\<rparr>) = commits s"
  by (simp_all add: commits_def)

lemma call_fields [simp]:
  "gpu_atomicModeSetting (call c s) = gpu_atomicModeSetting s"
  "m_pageFlipPending (call c s) = m_pageFlipPending s"
  "has_crtc (call c s) = has_crtc s"
  "m_atomicOffPending (call c s) = m_atomicOffPending s"
  "m_dpmsModePending (call c s) = m_dpmsModePending s"
  "crtc_current (call c s) = crtc_current s"
  "crtc_next (call c s) = crtc_next s"
  "isEnabled (call c s) = isEnabled s"
  by (simp_all add: call_def)

lemma dpmsFinishOn_quiet:
  assumes "gpu_atomicModeSetting s" and "m_pageFlipPending s" and "has_crtc s"
  shows "returns_with (dpmsFinishOn env s) (flip_in_flight s)"
  using assms by (simp add: dpmsFinishOn_def Let_def flip_in_flight_def)

lemma updateDpms_quiet:
  assumes "gpu_atomicModeSetting s" and "m_pageFlipPending s" and "has_crtc s"
  shows "returns_with (updateDpms env m s) (flip_in_flight s)"
  using assms
  by (auto simp: updateDpms_def dpmsFinishOn_def Let_def flip_in_flight_def)

lemma updateEnablement_quiet:
  assumes "gpu_atomicModeSetting s" and "m_pageFlipPending s" and "has_crtc s"
  shows "returns_with (updateEnablement env e s) (flip_in_flight s)"
  using assms
  by (auto simp: updateEnablement_def atomicEnable_def atomicDisable_def Let_def flip_in_flight_def)

lemma set_plane_fields [simp]:
  "gpu_atomicModeSetting (set_plane p s) = gpu_atomicModeSetting s"
  "m_pageFlipPending (set_plane p s) = m_pageFlipPending s"
  "has_crtc (set_plane p s) = has_crtc s"
  "commits (set_plane p s) = commits s"
  by (simp_all add: set_plane_def)

lemma updateTransform_quiet:
  assumes "gpu_atomicModeSetting s" and "m_pageFlipPending s" and "has_crtc s"
  shows "flip_in_flight s (updateTransform env t s)"
  using assms
  by (auto simp: updateTransform_def Let_def flip_in_flight_def split: option.splits)

lemma updateMode_quiet:
  assumes "gpu_atomicModeSetting s" and "m_pageFlipPending s" and "has_crtc s" and "0 \<le> i"
  shows "returns_with (updateMode env i s) (flip_in_flight s)"
  using assms
  by (auto simp: updateMode_def setWaylandMode_def Let_def flip_in_flight_def)

lemma present_refused_in_flight:
  assumes "gpu_atomicModeSetting s" and "m_pageFlipPending s"
  shows "present env b s = Returns (False, s)"
  using assms by (simp add: present_def presentAtomically_def)

lemma drm_step_quiet:
  assumes "gpu_atomicModeSetting s" and "m_pageFlipPending s" and "has_crtc s"
    and "e \<noteq> PageFlipped" and "\<forall>i. e = UpdateMode i \<longrightarrow> 0 \<le> i"
  shows "returns_with (drm_step env e s) (flip_in_flight s)"
proof (cases e)
  case (UpdateDpms m)
  with updateDpms_quiet [OF assms(1-3)] show ?thesis by simp
next
  case (UpdateEnablement b)
  with updateEnablement_quiet [OF assms(1-3)] show ?thesis by simp
next
  case (UpdateTransform t)
  with updateTransform_quiet [OF assms(1-3)] show ?thesis by simp
next
  case (UpdateMode i)
  with updateMode_quiet [OF assms(1-3)] assms(5) show ?thesis by simp
next
  case (Present b)
  with present_refused_in_flight [OF assms(1,2)] assms(1-3) show ?thesis
    by (simp add: flip_in_flight_def)
next
  case PageFlipped
  with assms(4) show ?thesis by simp
qed

lemma drm_run_quiet:
  assumes "gpu_atomicModeSetting s" and "m_pageFlipPending s" and "has_crtc s"
    and "\<forall>(env, e) \<in> set es. e \<noteq> PageFlipped \<and> (\<forall>i. e = UpdateMode i \<longrightarrow> 0 \<le> i)"
  shows "returns_with (drm_run es s) (flip_in_flight s)"
  using assms
proof (induction es arbitrary: s)
  case Nil
  then show ?case by (simp add: flip_in_flight_def)
next
  case (Cons a es)
  obtain env e where a: "a = (env, e)" by (cases a)
  from Cons.prems(4) a have e: "e \<noteq> PageFlipped" "\<forall>i. e = UpdateMode i \<longrightarrow> 0 \<le> i"
    and rest: "\<forall>(env, e) \<in> set es. e \<noteq> PageFlipped \<and> (\<forall>i. e = UpdateMode i \<longrightarrow> 0 \<le> i)"
    by auto
  have "returns_with (and_then (drm_step env e s) (drm_run es)) (flip_in_flight s)"
  proof (rule returns_with_and_then [OF drm_step_quiet [OF Cons.prems(1-3) e]])
    fix s1 assume f: "flip_in_flight s s1"
    then have "returns_with (drm_run es s1) (flip_in_flight s1)"
      using rest by (intro Cons.IH) (simp_all add: flip_in_flight_def)
    then show "returns_with (drm_run es s1) (flip_in_flight s)"
      by (rule returns_with_weaken) (use f in \<open>simp add: flip_in_flight_def\<close>)
  qed
  with a show ?case by simp
qed


lemma set_plane_same: "m_primaryPlane s = Some p \<Longrightarrow> set_plane p s = s"
  by (cases s) (simp add: set_plane_def)

lemma pageFlipped_runs_dpmsAtomicOff:
  assumes "m_pageFlipPending s \<or> \<not> q_assert env \<or> \<not> gpu_atomicModeSetting s"
    and "gpu_atomicModeSetting s" and "has_crtc s" and "\<not> m_deleted s"
    and "m_primaryPlane s = Some p" and "plane_next p \<noteq> None \<or> \<not> gpu_deleteBufferAfterPageFlip s"
    and "m_atomicOffPending s"
  shows "\<exists>s1. pageFlipped env s = and_then (dpmsAtomicOff env s1) (\<lambda>(ok, s'). Returns s')
              \<and> commits s1 = commits s \<and> \<not> m_pageFlipPending s1 \<and> m_atomicOffPending s1
              \<and> m_dpmsModePending s1 = m_dpmsModePending s"
proof -
  let ?s1 = "s\<lparr>m_pageFlipPending := False\<rparr>"
  let ?s2 = "flipListedPlanes ?s1"
  let ?s3 = "if gpu_deleteBufferAfterPageFlip s then ?s2 else crtc_flipBuffer ?s2"
  have "pageFlipped env s = and_then (dpmsAtomicOff env ?s3) (\<lambda>(ok, s'). Returns s')"
    using assms
    by (auto simp: pageFlipped_def Let_def with_plane_def crtc_flipBuffer_def flipListedPlanes_def)
  moreover have "commits ?s3 = commits s" "\<not> m_pageFlipPending ?s3" "m_atomicOffPending ?s3"
    "m_dpmsModePending ?s3 = m_dpmsModePending s"
    using assms(7) by (simp_all add: crtc_flipBuffer_def flipListedPlanes_def commits_def)
  ultimately show ?thesis by blast
qed

text \<open>
  Claim C5. Under atomic mode-setting, while a page flip is pending: \<^verbatim>\<open>updateDpms(Off)\<close>
  returns without handing any commit to the kernel and only marks the off as pending
  (\<^verbatim>\<open>m_atomicOffPending\<close>); no sequence of further calls other than the page-flip
  completion hands over a commit either (\<^verbatim>\<open>present\<close> is refused, DPMS, enablement,
  transform and mode requests only change the in-memory state); and the page-flip completion
  handler, finding the off pending, runs \<^verbatim>\<open>dpmsAtomicOff\<close> after it has cleared the
  pending flip and flipped the buffers.
\<close>

theorem dpms_off_deferred_until_flip:
  assumes "gpu_atomicModeSetting s" and "m_pageFlipPending s" and "has_crtc s"
  shows "(\<exists>s1. updateDpms env DpmsOff s = Returns s1 \<and> commits s1 = commits s \<and> m_pageFlipPending s1
            \<and> (has_dpms s \<and> isEnabled s \<and> m_dpmsModePending s \<noteq> DpmsOff \<longrightarrow>
                 m_atomicOffPending s1 \<and> m_dpmsModePending s1 = DpmsOff))
       \<and> (\<forall>es. (\<forall>(env', e) \<in> set es. e \<noteq> PageFlipped \<and> (\<forall>i. e = UpdateMode i \<longrightarrow> 0 \<le> i)) \<longrightarrow>
             (\<exists>s2. drm_run es s = Returns s2 \<and> commits s2 = commits s \<and> m_pageFlipPending s2))
       \<and> (\<forall>p. \<not> m_deleted s \<and> m_atomicOffPending s \<and> m_primaryPlane s = Some p
              \<and> (plane_next p \<noteq> None \<or> \<not> gpu_deleteBufferAfterPageFlip s) \<longrightarrow>
             (\<exists>s3. pageFlipped env s = and_then (dpmsAtomicOff env s3) (\<lambda>(ok, s'). Returns s')
                   \<and> commits s3 = commits s \<and> \<not> m_pageFlipPending s3 \<and> m_atomicOffPending s3
                   \<and> m_dpmsModePending s3 = m_dpmsModePending s))"
proof (intro conjI allI impI)
  show "\<exists>s1. updateDpms env DpmsOff s = Returns s1 \<and> commits s1 = commits s \<and> m_pageFlipPending s1
            \<and> (has_dpms s \<and> isEnabled s \<and> m_dpmsModePending s \<noteq> DpmsOff \<longrightarrow>
                 m_atomicOffPending s1 \<and> m_dpmsModePending s1 = DpmsOff)"
    using assms by (auto simp: updateDpms_def Let_def)
next
  fix es :: "(drm_env \<times> drm_event) list"
  assume "\<forall>(env', e) \<in> set es. e \<noteq> PageFlipped \<and> (\<forall>i. e = UpdateMode i \<longrightarrow> 0 \<le> i)"
  from drm_run_quiet [OF assms this]
  show "\<exists>s2. drm_run es s = Returns s2 \<and> commits s2 = commits s \<and> m_pageFlipPending s2"
    by (auto dest!: returns_withD simp: flip_in_flight_def)
next
  fix p
  assume a: "\<not> m_deleted s \<and> m_atomicOffPending s \<and> m_primaryPlane s = Some p
              \<and> (plane_next p \<noteq> None \<or> \<not> gpu_deleteBufferAfterPageFlip s)"
  show "\<exists>s3. pageFlipped env s = and_then (dpmsAtomicOff env s3) (\<lambda>(ok, s'). Returns s')
                   \<and> commits s3 = commits s \<and> \<not> m_pageFlipPending s3 \<and> m_atomicOffPending s3
                   \<and> m_dpmsModePending s3 = m_dpmsModePending s"
    using assms a by (intro pageFlipped_runs_dpmsAtomicOff) auto
qed

lemma steady_output_fields:
  "gpu_atomicModeSetting steady_output" "has_crtc steady_output" "has_dpms steady_output"
  "isEnabled steady_output" "m_dpmsModePending steady_output = DpmsOn"
  "\<not> m_pageFlipPending steady_output" "commits steady_output = []"
  by (simp_all add: steady_output_def commits_def)

theorem dpms_off_deferred_until_flip_witness:
  "gpu_atomicModeSetting (steady_output\<lparr>m_pageFlipPending := True\<rparr>)
   \<and> m_pageFlipPending (steady_output\<lparr>m_pageFlipPending := True\<rparr>)
   \<and> has_crtc (steady_output\<lparr>m_pageFlipPending := True\<rparr>)
   \<and> (\<exists>s1. updateDpms all_ok DpmsOff (steady_output\<lparr>m_pageFlipPending := True\<rparr>) = Returns s1
           \<and> commits s1 = [] \<and> m_atomicOffPending s1 \<and> m_dpmsModePending s1 = DpmsOff)
   \<and> (\<exists>s2. drm_run [(all_ok, UpdateDpms DpmsOff), (all_ok, Present 3), (all_ok, UpdateDpms DpmsStandby)]
              (steady_output\<lparr>m_pageFlipPending := True\<rparr>) = Returns s2
           \<and> commits s2 = [] \<and> m_pageFlipPending s2)"
proof -
  let ?s = "steady_output\<lparr>m_pageFlipPending := True\<rparr>"
  have h: "gpu_atomicModeSetting ?s" "m_pageFlipPending ?s" "has_crtc ?s"
    and d: "has_dpms ?s" "isEnabled ?s" "m_dpmsModePending ?s \<noteq> DpmsOff" "commits ?s = []"
    by (simp_all add: steady_output_fields)
  have es: "\<forall>(env', e) \<in> set [(all_ok, UpdateDpms DpmsOff), (all_ok, Present 3), (all_ok, UpdateDpms DpmsStandby)].
              e \<noteq> PageFlipped \<and> (\<forall>i. e = UpdateMode i \<longrightarrow> 0 \<le> i)"
    by simp
  from dpms_off_deferred_until_flip [OF h, of all_ok] h d es show ?thesis
    by (metis (no_types, lifting))
qed

text \<open>
  The commits of a run: present, then DPMS off while the flip is pending, and then the
  flip's completion.
\<close>

lemma deferred_off_example:
  "(case drm_run [(all_ok, Present 2), (all_ok, UpdateDpms DpmsOff)] steady_output of
      Returns s \<Rightarrow> commits s | _ \<Rightarrow> [])
     = [AtomicCommit AtomicTest False DpmsOn True, AtomicCommit AtomicReal False DpmsOn True]"
  "(case drm_run [(all_ok, Present 2), (all_ok, UpdateDpms DpmsOff), (all_ok, PageFlipped)] steady_output of
      Returns s \<Rightarrow> commits s | _ \<Rightarrow> [])
     = [AtomicCommit AtomicTest False DpmsOn True, AtomicCommit AtomicReal False DpmsOn True,
        AtomicCommit AtomicTest True DpmsOff True, AtomicCommit AtomicReal True DpmsOff True]"
  by code_simp+

lemma errorHandler_keeps:
  "m_mode (errorHandler s) = m_mode s" "transform (errorHandler s) = transform s"
  "globalPos (errorHandler s) = globalPos s"
  "m_lastWorkingState (errorHandler s) = m_lastWorkingState s"
  "gpu_atomicModeSetting (errorHandler s) = gpu_atomicModeSetting s"
  by (simp_all add: errorHandler_def dpmsFinishOff_def call_def set_plane_def Let_def split: option.splits)

lemma atomicReqModesetPopulate_keeps:
  assumes "atomicReqModesetPopulate env mode enable s = Returns (ok, s')"
  shows "m_mode s' = m_mode s" "transform s' = transform s" "globalPos s' = globalPos s"
    "m_lastWorkingState s' = m_lastWorkingState s" "gpu_atomicModeSetting s' = gpu_atomicModeSetting s"
    "m_modesetRequested s' = m_modesetRequested s"
  using assms
  by (auto simp: atomicReqModesetPopulate_def with_plane_def set_plane_def Let_def
      split: if_splits option.splits)

lemma doAtomicCommit_keeps:
  assumes "doAtomicCommit env mode s = Returns (ok, s')"
  shows "m_mode s' = m_mode s \<and> transform s' = transform s \<and> globalPos s' = globalPos s
         \<and> m_lastWorkingState s' = m_lastWorkingState s
         \<and> gpu_atomicModeSetting s' = gpu_atomicModeSetting s"
proof -
  obtain populated s1 where p: "(if m_modesetRequested s
                  then atomicReqModesetPopulate env mode (m_dpmsModePending s = DpmsOn) s
                  else Returns (True, s)) = Returns (populated, s1)
        \<or> \<not> atomicAlloc_ok env mode
        \<or> (m_modesetRequested s \<and> m_dpmsModePending s = DpmsOn \<and> \<not> createPropertyBlob_ok env mode)"
    using assms
    by (cases "if m_modesetRequested s
                  then atomicReqModesetPopulate env mode (m_dpmsModePending s = DpmsOn) s
                  else Returns (True, s)")
       (auto simp: doAtomicCommit_def split: if_splits)
  show ?thesis
  proof (cases "\<not> atomicAlloc_ok env mode
        \<or> (m_modesetRequested s \<and> m_dpmsModePending s = DpmsOn \<and> \<not> createPropertyBlob_ok env mode)")
    case True
    with assms show ?thesis
      by (auto simp: doAtomicCommit_def errorHandler_keeps split: if_splits)
  next
    case False
    with p have q: "(if m_modesetRequested s
                  then atomicReqModesetPopulate env mode (m_dpmsModePending s = DpmsOn) s
                  else Returns (True, s)) = Returns (populated, s1)" by blast
    then have k: "m_mode s1 = m_mode s" "transform s1 = transform s" "globalPos s1 = globalPos s"
      "m_lastWorkingState s1 = m_lastWorkingState s" "gpu_atomicModeSetting s1 = gpu_atomicModeSetting s"
      by (auto split: if_splits dest: atomicReqModesetPopulate_keeps)
    from assms False q have
      "s' = errorHandler s1
       \<or> s' = errorHandler (call (AtomicCommit mode (m_modesetRequested s1) (m_dpmsModePending s1) (atomicCommit_ok env mode)) s1)
       \<or> s' = (call (AtomicCommit mode (m_modesetRequested s1) (m_dpmsModePending s1) (atomicCommit_ok env mode)) s1)
                \<lparr>m_modesetRequested := False, m_dpmsMode := m_dpmsModePending s1\<rparr>
       \<or> s' = call (AtomicCommit mode (m_modesetRequested s1) (m_dpmsModePending s1) (atomicCommit_ok env mode)) s1"
      by (simp add: doAtomicCommit_def Let_def call_def split: if_splits)
    with k show ?thesis
      by (auto simp: errorHandler_keeps call_def)
  qed
qed

lemma rollback_fields:
  "m_mode (rollback s) = (if lws_valid (m_lastWorkingState s) then lws_mode (m_lastWorkingState s) else m_mode s)"
  "transform (rollback s) = (if lws_valid (m_lastWorkingState s) then lws_transform (m_lastWorkingState s) else transform s)"
  "globalPos (rollback s) = (if lws_valid (m_lastWorkingState s) then lws_globalPos (m_lastWorkingState s) else globalPos s)"
  by (simp_all add: rollback_def setWaylandMode_def call_def set_plane_def Let_def split: option.splits)

text \<open>
  Claim C3, amended. When the atomic test commit of \<^verbatim>\<open>present()\<close> fails, \<^verbatim>\<open>present()\<close>
  returns false (it does not abort), and mode, transform and global position are those of the
  last working state (the snapshot taken at the last successful mode set) when there is one;
  they are what they were before the call only when no mode set has succeeded yet.
\<close>

theorem present_test_commit_failure:
  assumes "gpu_atomicModeSetting s" and "m_dpmsModePending s = DpmsOn" and "session_isActive env"
    and "\<not> m_pageFlipPending s" and "\<not> (gpu_useEglStreams s \<and> \<not> m_modesetRequested s)"
    and "m_primaryPlane s = Some p"
    and "doAtomicCommit env AtomicTest (stageBuffer buffer p s) = Returns (False, s1)"
  shows "\<exists>s'. present env buffer s = Returns (False, s')
          \<and> m_mode s' = (if lws_valid (m_lastWorkingState s) then lws_mode (m_lastWorkingState s) else m_mode s)
          \<and> transform s' = (if lws_valid (m_lastWorkingState s) then lws_transform (m_lastWorkingState s) else transform s)
          \<and> globalPos s' = (if lws_valid (m_lastWorkingState s) then lws_globalPos (m_lastWorkingState s) else globalPos s)"
proof -
  have "present env buffer s = Returns (False, rollback s1)"
    using assms by (auto simp: present_def presentAtomically_def with_plane_def)
  moreover have "m_mode s1 = m_mode s" "transform s1 = transform s" "globalPos s1 = globalPos s"
    "m_lastWorkingState s1 = m_lastWorkingState s"
    using doAtomicCommit_keeps [OF assms(7)]
    by (simp_all add: stageBuffer_def set_plane_def)
  ultimately show ?thesis
    by (simp add: rollback_fields)
qed



theorem present_test_commit_failure_witness:
  "gpu_atomicModeSetting steady_output \<and> m_dpmsModePending steady_output = DpmsOn
   \<and> session_isActive test_fails \<and> \<not> m_pageFlipPending steady_output
   \<and> (\<exists>s'. present test_fails 2 (steady_output\<lparr>m_mode := 2, m_modesetRequested := True\<rparr>) = Returns (False, s')
          \<and> m_mode s' = 1 \<and> transform s' = Normal \<and> globalPos s' = (0, 0))"
proof -
  let ?s = "steady_output\<lparr>m_mode := 2, m_modesetRequested := True\<rparr>"
  let ?p = "\<lparr>plane_current = Some 1, plane_next = None, plane_transformation = Rotate0,
             plane_supportedTransformations = {Rotate0, Rotate180}\<rparr>"
  have h: "gpu_atomicModeSetting ?s" "m_dpmsModePending ?s = DpmsOn" "session_isActive test_fails"
    "\<not> m_pageFlipPending ?s" "\<not> (gpu_useEglStreams ?s \<and> \<not> m_modesetRequested ?s)"
    "m_primaryPlane ?s = Some ?p"
    by (simp_all add: steady_output_def test_fails_def all_ok_def)
  have t: "doAtomicCommit test_fails AtomicTest (stageBuffer 2 ?p ?s)
           = Returns (False, errorHandler (call (AtomicCommit AtomicTest True DpmsOn False) (stageBuffer 2 ?p ?s)))"
    by (simp add: doAtomicCommit_def atomicReqModesetPopulate_def with_plane_def stageBuffer_def
        set_plane_def steady_output_def test_fails_def all_ok_def Let_def call_def)
  have l: "lws_valid (m_lastWorkingState ?s)" "lws_mode (m_lastWorkingState ?s) = 1"
    "lws_transform (m_lastWorkingState ?s) = Normal" "lws_globalPos (m_lastWorkingState ?s) = (0, 0)"
    by (simp_all add: steady_output_def)
  from present_test_commit_failure [OF h t] l h(1-4) show ?thesis
    by (simp add: steady_output_def)
qed

text \<open>
  Claim C3, as stated: after a failed test commit the mode equals its value from before the
  failed \<^verbatim>\<open>present()\<close>. An output running in mode 1 is switched to mode 2
  (\<^verbatim>\<open>updateMode\<close>); the test commit of the next \<^verbatim>\<open>present()\<close> fails; the mode is 1
  afterwards, not the 2 it was when \<^verbatim>\<open>present()\<close> was called.
\<close>

theorem present_rollback_counterexample:
  "(case updateMode all_ok 1 steady_output of
      Returns s \<Rightarrow>
        (case present test_fails 2 s of
           Returns (ok, s') \<Rightarrow> \<not> ok \<and> m_mode s = 2 \<and> m_mode s' = 1 \<and> m_mode s' \<noteq> m_mode s
         | _ \<Rightarrow> False)
    | _ \<Rightarrow> False)"
  by code_simp

lemma presentAtomically_success_pending:
  assumes "presentAtomically env b s = Returns (True, s')"
  shows "m_pageFlipPending s' \<and> gpu_atomicModeSetting s' = gpu_atomicModeSetting s"
proof (cases "\<not> session_isActive env \<or> m_pageFlipPending s \<or> (gpu_useEglStreams s \<and> \<not> m_modesetRequested s)")
  case True
  with assms show ?thesis
    by (auto simp: presentAtomically_def split: if_splits)
next
  case False
  with assms obtain p where p: "m_primaryPlane s = Some p"
    by (cases "m_primaryPlane s") (auto simp: presentAtomically_def with_plane_def)
  from assms False p obtain s1 where t: "doAtomicCommit env AtomicTest (stageBuffer b p s) = Returns (True, s1)"
    by (cases "doAtomicCommit env AtomicTest (stageBuffer b p s)")
       (auto simp: presentAtomically_def with_plane_def split: if_splits)
  from assms False p t obtain s2 where r: "doAtomicCommit env AtomicReal s1 = Returns (True, s2)"
    by (cases "doAtomicCommit env AtomicReal s1")
       (auto simp: presentAtomically_def with_plane_def Let_def split: if_splits)
  from assms False p t r have "m_pageFlipPending s'" and "gpu_atomicModeSetting s' = gpu_atomicModeSetting s2"
    by (auto simp: presentAtomically_def with_plane_def Let_def call_def split: if_splits)
  with doAtomicCommit_keeps [OF t] doAtomicCommit_keeps [OF r] show ?thesis
    by (simp add: stageBuffer_def set_plane_def)
qed

lemma presentLegacy_success_next:
  assumes "presentLegacy env b s = Returns (True, s')"
  shows "crtc_next s' \<noteq> None \<and> has_crtc s' \<and> gpu_atomicModeSetting s' = gpu_atomicModeSetting s"
  using assms
  by (auto simp: presentLegacy_def setModeLegacy_def Let_def call_def split: if_splits prod.splits)

text \<open>
  Claim C4, amended. \<^verbatim>\<open>present(buffer)\<close> returns false and leaves the output as it was
  (nothing staged, nothing handed to the kernel) whenever the pending DPMS mode is not On;
  under atomic mode-setting also whenever a page flip is pending; under legacy mode-setting
  whenever the CRTC's next-buffer slot is occupied. In both modes a \<^verbatim>\<open>present()\<close> that
  follows a successful \<^verbatim>\<open>present()\<close> is rejected, not queued.
\<close>

theorem present_refused:
  "(m_dpmsModePending s \<noteq> DpmsOn \<longrightarrow> present env b s = Returns (False, s))
   \<and> (gpu_atomicModeSetting s \<and> m_pageFlipPending s \<longrightarrow> present env b s = Returns (False, s))
   \<and> (\<not> gpu_atomicModeSetting s \<and> has_crtc s \<and> crtc_next s \<noteq> None \<longrightarrow>
        present env b s = Returns (False, s))
   \<and> (\<forall>s'. present env b s = Returns (True, s') \<longrightarrow> present env' b' s' = Returns (False, s'))"
proof (intro conjI allI impI)
  show "present env b s = Returns (False, s)" if "m_dpmsModePending s \<noteq> DpmsOn"
    using that by (simp add: present_def)
  show "present env b s = Returns (False, s)" if "gpu_atomicModeSetting s \<and> m_pageFlipPending s"
    using that by (simp add: present_def presentAtomically_def)
  show "present env b s = Returns (False, s)"
    if "\<not> gpu_atomicModeSetting s \<and> has_crtc s \<and> crtc_next s \<noteq> None"
    using that by (auto simp: present_def presentLegacy_def)
next
  fix s' assume ok: "present env b s = Returns (True, s')"
  show "present env' b' s' = Returns (False, s')"
  proof (cases "gpu_atomicModeSetting s")
    case True
    with ok have "presentAtomically env b s = Returns (True, s')"
      by (simp add: present_def split: if_splits)
    from presentAtomically_success_pending [OF this] True
    show ?thesis by (simp add: present_def presentAtomically_def)
  next
    case False
    with ok have "presentLegacy env b s = Returns (True, s')"
      by (simp add: present_def split: if_splits)
    from presentLegacy_success_next [OF this] False
    show ?thesis by (auto simp: present_def presentLegacy_def)
  qed
qed


theorem present_refused_witness:
  "m_dpmsModePending (steady_output\<lparr>m_dpmsModePending := DpmsOff\<rparr>) \<noteq> DpmsOn
   \<and> present all_ok 2 (steady_output\<lparr>m_dpmsModePending := DpmsOff\<rparr>)
       = Returns (False, steady_output\<lparr>m_dpmsModePending := DpmsOff\<rparr>)
   \<and> gpu_atomicModeSetting (steady_output\<lparr>m_pageFlipPending := True\<rparr>)
   \<and> m_pageFlipPending (steady_output\<lparr>m_pageFlipPending := True\<rparr>)
   \<and> present all_ok 2 (steady_output\<lparr>m_pageFlipPending := True\<rparr>)
       = Returns (False, steady_output\<lparr>m_pageFlipPending := True\<rparr>)
   \<and> \<not> gpu_atomicModeSetting (legacy_output\<lparr>crtc_next := Some 5\<rparr>)
   \<and> present all_ok 2 (legacy_output\<lparr>crtc_next := Some 5\<rparr>)
       = Returns (False, legacy_output\<lparr>crtc_next := Some 5\<rparr>)
   \<and> (\<exists>s'. present all_ok 2 steady_output = Returns (True, s') \<and> present all_ok 3 s' = Returns (False, s'))"
proof -
  have a: "m_dpmsModePending (steady_output\<lparr>m_dpmsModePending := DpmsOff\<rparr>) \<noteq> DpmsOn"
    and b: "gpu_atomicModeSetting (steady_output\<lparr>m_pageFlipPending := True\<rparr>)
            \<and> m_pageFlipPending (steady_output\<lparr>m_pageFlipPending := True\<rparr>)"
    and c: "\<not> gpu_atomicModeSetting (legacy_output\<lparr>crtc_next := Some 5\<rparr>)
            \<and> has_crtc (legacy_output\<lparr>crtc_next := Some 5\<rparr>)
            \<and> crtc_next (legacy_output\<lparr>crtc_next := Some 5\<rparr>) \<noteq> None"
    by (simp_all add: steady_output_def legacy_output_def)
  have "case present all_ok 2 steady_output of Returns (ok, s') \<Rightarrow> ok | _ \<Rightarrow> False"
    by code_simp
  then obtain s' where d: "present all_ok 2 steady_output = Returns (True, s')"
    by (auto split: outcome.splits)
  from present_refused [of "steady_output\<lparr>m_dpmsModePending := DpmsOff\<rparr>" all_ok 2] a
    present_refused [of "steady_output\<lparr>m_pageFlipPending := True\<rparr>" all_ok 2] b
    present_refused [of "legacy_output\<lparr>crtc_next := Some 5\<rparr>" all_ok 2] c
    present_refused [of steady_output all_ok 2 all_ok 3] d
  show ?thesis by blast
qed

text \<open>
  Claim C4, as stated: in every output state a pending page flip makes \<^verbatim>\<open>present()\<close>
  refuse. The legacy path does not look at \<^verbatim>\<open>m_pageFlipPending\<close> but at the CRTC's
  next-buffer slot: with a flip pending and that slot empty, the buffer is flipped and staged.
\<close>

theorem present_legacy_counterexample:
  "m_pageFlipPending (legacy_output\<lparr>m_pageFlipPending := True\<rparr>)
   \<and> (case present all_ok 2 (legacy_output\<lparr>m_pageFlipPending := True\<rparr>) of
        Returns (ok, s') \<Rightarrow> ok \<and> crtc_next s' = Some 2
                            \<and> drm_calls s' = drm_calls (legacy_output\<lparr>m_pageFlipPending := True\<rparr>) @ [LegacyPageFlip 2 True]
      | _ \<Rightarrow> False)"
  by code_simp

text \<open>
  Such a state arises when DPMS goes off and on again before the flip completes and
  \<^verbatim>\<open>DrmCrtc::blank\<close> (a parameter here) empties the CRTC's buffer slots.
\<close>

lemma legacy_flip_pending_reachable:
  "(case drm_run [(all_ok, Present 2), (all_ok, UpdateDpms DpmsOff),
                  (all_ok\<lparr>crtc_blank := (\<lambda>bufs. (None, None))\<rparr>, UpdateDpms DpmsOn)] legacy_output of
      Returns s \<Rightarrow> m_pageFlipPending s \<and> crtc_next s = None
                     \<and> (case present all_ok 3 s of Returns (ok, s') \<Rightarrow> ok | _ \<Rightarrow> False)
    | _ \<Rightarrow> False)"
  by code_simp

section \<open>The occlusion pass of Scene::paintSimpleScreen\<close>

text \<open>The occlusion pass changes the paint regions only.\<close>

lemma occlusionLoop_shape:
  "occlusionLoop f disp ds ac utd = (ds', ac') \<Longrightarrow>
   map p2_clip ds' = map p2_clip ds \<and> map p2_mask ds' = map p2_mask ds
   \<and> map p2_window ds' = map p2_window ds"
proof (induction ds arbitrary: ac utd ds' ac')
  case Nil
  then show ?case by simp
next
  case (Cons d ds)
  then show ?case
    by (auto simp: Let_def split: prod.splits if_splits)
qed

text \<open>Every region is cut by the clips accumulated above it, and the clips only grow.\<close>

lemma occlusionLoop_disjoint:
  "occlusionLoop f disp ds ac utd = (ds', ac') \<Longrightarrow>
   ac \<subseteq> ac' \<and> (\<forall>d' \<in> set ds'. p2_region d' \<inter> ac = {})"
proof (induction ds arbitrary: ac utd ds' ac')
  case Nil
  then show ?case by simp
next
  case (Cons d ds)
  let ?r1 = "(if f then disp else p2_region d \<union> utd) - ac"
  let ?d' = "d\<lparr>p2_region := ?r1\<rparr>"
  obtain ac1 utd1 where st: "(if p2_clip ?d' \<noteq> {} \<and> and (p2_mask ?d') PAINT_WINDOW_TRANSLUCENT = 0
             then (ac \<union> p2_clip ?d',
                   if \<not> f then utd \<union> (p2_region ?d' - p2_clip ?d') else utd)
             else (ac, if \<not> f then utd \<union> p2_region ?d' else utd)) = (ac1, utd1)"
    by (metis surj_pair)
  obtain ds1 ac2 where rec: "occlusionLoop f disp ds ac1 utd1 = (ds1, ac2)"
    by (metis surj_pair)
  from Cons.prems st rec have res: "ds' = ?d' # ds1" "ac' = ac2"
    by (simp_all add: Let_def)
  have sub: "ac \<subseteq> ac1" using st by (auto split: if_splits)
  from Cons.IH [OF rec] have "ac1 \<subseteq> ac2" and dj: "\<forall>d' \<in> set ds1. p2_region d' \<inter> ac1 = {}"
    by simp_all
  with sub res show ?case by auto
qed

text \<open>
  Once the accumulated clips cover everything that is dirty (the whole display on a full
  repaint), every remaining region is empty.
\<close>

lemma occlusionLoop_empty:
  assumes "occlusionLoop f disp ds ac utd = (ds', ac')"
    and "f \<longrightarrow> disp \<subseteq> ac"
    and "\<not> f \<longrightarrow> utd \<subseteq> ac \<and> (\<forall>d \<in> set ds. p2_region d \<subseteq> ac)"
  shows "\<forall>d' \<in> set ds'. p2_region d' = {}"
  using assms
proof (induction ds arbitrary: ac utd ds' ac')
  case Nil
  then show ?case by simp
next
  case (Cons d ds)
  let ?r1 = "(if f then disp else p2_region d \<union> utd) - ac"
  let ?d' = "d\<lparr>p2_region := ?r1\<rparr>"
  have r1: "?r1 = {}" using Cons.prems(2,3) by auto
  obtain ac1 utd1 where st: "(if p2_clip ?d' \<noteq> {} \<and> and (p2_mask ?d') PAINT_WINDOW_TRANSLUCENT = 0
             then (ac \<union> p2_clip ?d',
                   if \<not> f then utd \<union> (p2_region ?d' - p2_clip ?d') else utd)
             else (ac, if \<not> f then utd \<union> p2_region ?d' else utd)) = (ac1, utd1)"
    by (metis surj_pair)
  obtain ds1 ac2 where rec: "occlusionLoop f disp ds ac1 utd1 = (ds1, ac2)"
    by (metis surj_pair)
  from Cons.prems(1) st rec have res: "ds' = ?d' # ds1"
    by (simp add: Let_def)
  have sub: "ac \<subseteq> ac1" and u: "utd1 = utd"
    using st r1 by (auto split: if_splits)
  have "\<forall>d' \<in> set ds1. p2_region d' = {}"
  proof (rule Cons.IH [OF rec])
    show "f \<longrightarrow> disp \<subseteq> ac1" using Cons.prems(2) sub by auto
    show "\<not> f \<longrightarrow> utd1 \<subseteq> ac1 \<and> (\<forall>d \<in> set ds. p2_region d \<subseteq> ac1)"
    proof (intro impI conjI ballI)
      assume nf: "\<not> f"
      with Cons.prems(3) have a: "utd \<subseteq> ac" and b: "\<forall>e \<in> set (d # ds). p2_region e \<subseteq> ac"
        by blast+
      from a sub u show "utd1 \<subseteq> ac1" by blast
      fix e assume "e \<in> set ds"
      with b have "p2_region e \<subseteq> ac" by simp
      then show "p2_region e \<subseteq> ac1" using sub by (rule subset_trans)
    qed
  qed
  with res r1 show ?case by simp
qed

text \<open>The first loop collects every window's paint region in the dirty area.\<close>

lemma prePaintPass_dirty:
  assumes "prePaintPass env m r ws p2 dirty ofs = (ws', p2', dirty', ofs')"
    and "\<forall>d \<in> set p2. p2_region d \<subseteq> dirty"
  shows "dirty \<subseteq> dirty' \<and> (\<forall>d \<in> set p2'. p2_region d \<subseteq> dirty')"
  using assms
proof (induction ws arbitrary: p2 dirty ofs ws' p2' dirty' ofs')
  case Nil
  then show ?case by simp
next
  case (Cons w ws)
  let ?w2 = "resetRepaints (resetPaintingEnabled w)"
  let ?data = "windowPrePaintData env m r (resetPaintingEnabled w)"
  obtain data' disabled where h: "prePaintWindow env ?w2 ?data = (data', disabled)"
    by (metis surj_pair)
  let ?w3 = "?w2\<lparr>disable_painting := disabled\<rparr>"
  let ?ofs = "isOpaque ?w2 \<and> w_isClient ?w2 \<and> w_isFullScreen ?w2"
  show ?case
  proof (cases "isPaintingEnabled ?w3")
    case False
    obtain wsr where "prePaintPass env m r ws p2 dirty ?ofs = (wsr, p2', dirty', ofs')"
      using Cons.prems(1) h False
      by (auto simp: Let_def split: prod.splits)
    from Cons.IH [OF this Cons.prems(2)] show ?thesis .
  next
    case True
    let ?e = "\<lparr>p2_window = w_id ?w3, p2_region = wd_paint data',
               p2_clip = wd_clip data', p2_mask = wd_mask data'\<rparr>"
    obtain wsr where rec: "prePaintPass env m r ws (p2 @ [?e]) (dirty \<union> wd_paint data') ?ofs
                       = (wsr, p2', dirty', ofs')"
      using Cons.prems(1) h True
      by (auto simp: Let_def split: prod.splits)
    have "\<forall>d \<in> set (p2 @ [?e]). p2_region d \<subseteq> dirty \<union> wd_paint data'"
      using Cons.prems(2) by auto
    from Cons.IH [OF rec this] show ?thesis by auto
  qed
qed

lemma occlusionLoop_top:
  assumes "and (p2_mask d) PAINT_WINDOW_TRANSLUCENT = 0"
  shows "occlusionLoop f disp (d # ds) {} utd =
     (d\<lparr>p2_region := (if f then disp else p2_region d \<union> utd)\<rparr> #
        fst (occlusionLoop f disp ds (p2_clip d)
               (if \<not> f then utd \<union> ((if f then disp else p2_region d \<union> utd) - p2_clip d) else utd)),
      snd (occlusionLoop f disp ds (p2_clip d)
               (if \<not> f then utd \<union> ((if f then disp else p2_region d \<union> utd) - p2_clip d) else utd)))"
  using assms by (cases "p2_clip d = {}") (simp_all add: Let_def split: prod.splits)

text \<open>
  Claim C1, amended. In the optimized paint path, when the topmost painted window is not
  marked translucent and its clip region covers the whole output rectangle, then after the
  occlusion pass the paint region of every window below it holds no point of the output
  rectangle, and neither does the background fill region (the dirty area minus the
  accumulated clips). Both are empty on a full repaint, and whenever the dirty area lies
  within the output rectangle and \<^verbatim>\<open>extendPaintRegion\<close> only adds to the region it is given.
\<close>

theorem occlusion_top_opaque:
  fixes env orig_mask region scene
  defines "c \<equiv> occlusionCulling env orig_mask region scene"
  assumes ne: "c_phase2data c \<noteq> []"
    and clip: "displayRegion env \<subseteq> p2_clip (last (c_phase2data c))"
    and opaque: "and (p2_mask (last (c_phase2data c))) PAINT_WINDOW_TRANSLUCENT = 0"
  shows "(\<forall>d \<in> set (butlast (c_phase2data c)). p2_region d \<inter> displayRegion env = {})
       \<and> backgroundFill c \<inter> displayRegion env = {}
       \<and> (c_fullRepaint c \<or> (only_extends env \<and> c_dirtyArea c \<subseteq> displayRegion env) \<longrightarrow>
            (\<forall>d \<in> set (butlast (c_phase2data c)). p2_region d = {}) \<and> backgroundFill c = {})"
proof -
  let ?disp = "displayRegion env"
  let ?rep = "repaint_region scene"
  obtain ws p2 dirty0 ofs where pre:
    "prePaintPass env orig_mask region (stacking_order scene) [] region False = (ws, p2, dirty0, ofs)"
    by (metis prod_cases4)
  define dirty1 where "dirty1 = dirty0 \<union> ?rep"
  define dirty where "dirty = (if dirty1 \<noteq> ?disp then extendPaintRegion env dirty1 ofs else dirty1)"
  define full where "full = (if dirty1 \<noteq> ?disp then dirty = ?disp else True)"
  obtain ds' ac where loop: "occlusionLoop full ?disp (rev p2) {} ?rep = (ds', ac)"
    by (metis surj_pair)
  have c_eq: "c_phase2data c = rev ds' \<and> c_allclips c = ac \<and> c_dirtyArea c = dirty \<and> c_fullRepaint c = full"
  proof (cases "dirty1 = ?disp")
    case True
    then have "full" "dirty = dirty1" by (simp_all add: full_def dirty_def)
    with True pre loop show ?thesis
      by (simp add: c_def occlusionCulling_def occlusionPass_def Let_def dirty1_def)
  next
    case False
    then have "full = (extendPaintRegion env dirty1 ofs = ?disp)" "dirty = extendPaintRegion env dirty1 ofs"
      by (simp_all add: full_def dirty_def)
    with False pre loop show ?thesis
      by (simp add: c_def occlusionCulling_def occlusionPass_def Let_def dirty1_def)
  qed
  have full_dirty: "dirty = ?disp" if "full"
    using that by (cases "dirty1 = ?disp") (simp_all add: full_def dirty_def)
  from ne c_eq have dne: "ds' \<noteq> []" by simp
  with loop obtain top rest where rp: "rev p2 = top # rest"
    by (cases "rev p2") auto
  from occlusionLoop_shape [OF loop] rp
  have shape: "map p2_clip ds' = p2_clip top # map p2_clip rest"
    "map p2_mask ds' = p2_mask top # map p2_mask rest"
    by simp_all
  have lastc: "last (c_phase2data c) = hd ds'"
    using c_eq dne by (simp add: last_rev)
  have "p2_clip (hd ds') = p2_clip top" "p2_mask (hd ds') = p2_mask top"
    using shape dne by (cases ds'; simp)+
  with clip opaque lastc have tclip: "?disp \<subseteq> p2_clip top"
    and tmask: "and (p2_mask top) PAINT_WINDOW_TRANSLUCENT = 0"
    by simp_all
  define ac1 where "ac1 = p2_clip top"
  define utd1 where "utd1 = (if \<not> full then ?rep \<union> ((if full then ?disp else p2_region top \<union> ?rep) - p2_clip top)
                             else ?rep)"
  obtain rest' ac2 where rec: "occlusionLoop full ?disp rest ac1 utd1 = (rest', ac2)"
    by (metis surj_pair)
  have "occlusionLoop full ?disp (top # rest) {} ?rep
          = (top\<lparr>p2_region := (if full then ?disp else p2_region top \<union> ?rep)\<rparr> # rest', ac2)"
    using rec by (simp only: occlusionLoop_top [OF tmask] ac1_def utd1_def fst_conv snd_conv)
  with loop rp have ds: "ds' = top\<lparr>p2_region := (if full then ?disp else p2_region top \<union> ?rep)\<rparr> # rest'"
    and ac: "ac = ac2"
    by simp_all
  have bl: "set (butlast (c_phase2data c)) = set rest'"
    using c_eq ds by (simp add: butlast_rev)
  have cover: "?disp \<subseteq> ac1" using tclip by (simp add: ac1_def)
  from occlusionLoop_disjoint [OF rec] have mono: "ac1 \<subseteq> ac2"
    and dj: "\<forall>d' \<in> set rest'. p2_region d' \<inter> ac1 = {}"
    by simp_all
  have one: "\<forall>d \<in> set (butlast (c_phase2data c)). p2_region d \<inter> ?disp = {}"
    unfolding bl using dj cover by blast
  have two: "backgroundFill c \<inter> ?disp = {}"
    using cover mono c_eq ac by (auto simp: backgroundFill_def)
  have inside_empty: "(\<forall>d \<in> set (butlast (c_phase2data c)). p2_region d = {}) \<and> backgroundFill c = {}"
    if dd: "dirty \<subseteq> ?disp" and small: "\<not> full \<Longrightarrow> dirty1 \<subseteq> dirty"
  proof -
    have "\<forall>d' \<in> set rest'. p2_region d' = {}"
    proof (rule occlusionLoop_empty [OF rec])
      show "full \<longrightarrow> ?disp \<subseteq> ac1" using cover by simp
      show "\<not> full \<longrightarrow> utd1 \<subseteq> ac1 \<and> (\<forall>d \<in> set rest. p2_region d \<subseteq> ac1)"
      proof
        assume nf: "\<not> full"
        from prePaintPass_dirty [OF pre] have regs: "\<forall>d \<in> set p2. p2_region d \<subseteq> dirty0"
          by simp
        from small [OF nf] have d0: "dirty0 \<subseteq> dirty" and rep: "?rep \<subseteq> dirty"
          by (auto simp: dirty1_def)
        have regs_in: "\<forall>d \<in> set (top # rest). p2_region d \<subseteq> ac1"
        proof
          fix d assume "d \<in> set (top # rest)"
          then have "d \<in> set p2" using rp by (metis set_rev)
          with regs have "p2_region d \<subseteq> dirty0" by simp
          also note d0
          also note dd
          also note cover
          finally show "p2_region d \<subseteq> ac1" .
        qed
        have rep_in: "?rep \<subseteq> ac1"
          using rep dd cover by blast
        have top_in: "p2_region top \<subseteq> ac1" using regs_in by simp
        have "utd1 \<subseteq> ac1"
          using top_in rep_in nf by (auto simp: utd1_def ac1_def)
        with regs_in show "utd1 \<subseteq> ac1 \<and> (\<forall>d \<in> set rest. p2_region d \<subseteq> ac1)"
          by simp
      qed
    qed
    moreover have "backgroundFill c = {}"
      using dd cover mono c_eq ac by (auto simp: backgroundFill_def)
    ultimately show ?thesis unfolding bl by simp
  qed
  have three: "(\<forall>d \<in> set (butlast (c_phase2data c)). p2_region d = {}) \<and> backgroundFill c = {}"
    if h: "c_fullRepaint c \<or> (only_extends env \<and> c_dirtyArea c \<subseteq> ?disp)"
  proof (cases full)
    case True
    with full_dirty have dd: "dirty \<subseteq> ?disp" by simp
    show ?thesis
    proof (rule inside_empty)
      show "dirty \<subseteq> ?disp" by (rule dd)
      show "dirty1 \<subseteq> dirty" if "\<not> full" using that True by simp
    qed
  next
    case False
    with h c_eq have ext: "only_extends env" and dd: "dirty \<subseteq> ?disp"
      by simp_all
    have sm: "dirty1 \<subseteq> dirty"
      using ext by (auto simp: dirty_def only_extends_def)
    show ?thesis
    proof (rule inside_empty)
      show "dirty \<subseteq> ?disp" by (rule dd)
      show "dirty1 \<subseteq> dirty" by (rule sm)
    qed
  qed
  from one two three show ?thesis by blast
qed

text \<open>Evaluation of the example inputs.\<close>

lemma displayRegion_unit: "displayRegion (no_effects (1, 1)) = {(0, 0)}"
  by (auto simp: displayRegion_def no_effects_def QRegion_rect_def)

lemma in_infinite: "(1000, 1000) \<in> kwin_infiniteRegion"
  by (simp add: kwin_infiniteRegion_def QRegion_rect_def)

lemma repaints_no_effects:
  "(1000, 1000) \<notin> w_repaints w \<Longrightarrow> repaints (no_effects sz) w = w_repaints w"
  using in_infinite by (auto simp: repaints_def no_effects_def)

lemma region_translated_origin [simp]: "region_translated r (0, 0) = r"
  by (auto simp: region_translated_def)

lemma isOpaque_opaque_window: "isOpaque (opaque_window i shape pending)"
  by (simp add: isOpaque_def opaque_window_def)

lemma opaque_window_data:
  "(1000, 1000) \<notin> pending \<Longrightarrow>
   windowPrePaintData (no_effects sz) m r (resetPaintingEnabled (opaque_window i shape pending))
     = \<lparr>wd_mask = or m PAINT_WINDOW_OPAQUE, wd_paint = r \<union> pending, wd_clip = shape\<rparr>"
proof -
  assume p: "(1000, 1000) \<notin> pending"
  let ?w = "resetPaintingEnabled (opaque_window i shape pending)"
  have "w_repaints ?w = pending"
    by (simp add: resetPaintingEnabled_def opaque_window_def)
  with p have "repaints (no_effects sz) ?w = pending"
    by (simp add: repaints_no_effects)
  moreover have "isOpaque ?w" "\<not> w_isClient ?w"
    "w_surfaceItem ?w = Some \<lparr>si_shape = shape, si_opaque = shape, si_rootPosition = (0, 0)\<rparr>"
    by (simp_all add: isOpaque_def resetPaintingEnabled_def opaque_window_def)
  ultimately show ?thesis
    by (simp add: windowPrePaintData_def Let_def)
qed

lemma opaque_window_step:
  assumes "(1000, 1000) \<notin> pending"
  shows "prePaintPass (no_effects sz) m r (opaque_window i shape pending # ws) p2 dirty ofs =
     (let (ws', rest) = prePaintPass (no_effects sz) m r ws
                          (p2 @ [\<lparr>p2_window = i, p2_region = r \<union> pending, p2_clip = shape,
                                   p2_mask = or m PAINT_WINDOW_OPAQUE\<rparr>])
                          (dirty \<union> (r \<union> pending)) False
      in (opaque_window i shape {} # ws', rest))"
proof -
  let ?w1 = "resetPaintingEnabled (opaque_window i shape pending)"
  have w1: "?w1 = opaque_window i shape pending"
    by (simp add: resetPaintingEnabled_def opaque_window_def)
  have w2: "resetRepaints ?w1 = opaque_window i shape {}"
    by (simp add: w1) (simp add: resetRepaints_def opaque_window_def)
  have hk: "prePaintWindow (no_effects sz) (opaque_window i shape {}) d = (d, 0)" for d
    by (simp add: no_effects_def opaque_window_def)
  have w3: "(opaque_window i shape {})\<lparr>disable_painting := 0\<rparr> = opaque_window i shape {}"
    by (simp add: opaque_window_def)
  have en: "isPaintingEnabled (opaque_window i shape {})" "w_id (opaque_window i shape {}) = i"
    "\<not> w_isClient (opaque_window i shape {})"
    by (simp_all add: isPaintingEnabled_def opaque_window_def)
  show ?thesis
    by (simp add: Let_def opaque_window_data [OF assms] w2 hk w3 en del: prePaintPass.simps
        add: prePaintPass.simps(2) [of _ _ _ "opaque_window i shape pending"])
qed

lemma prePaintPass_Nil: "prePaintPass env m r [] p2 dirty ofs = ([], p2, dirty, ofs)"
  by simp

lemma extendPaintRegion_no_effects: "extendPaintRegion (no_effects sz) r b = r"
  by (simp add: no_effects_def)

lemma only_extends_no_effects: "only_extends (no_effects sz)"
  by (simp add: only_extends_def extendPaintRegion_no_effects)

lemma covered_culling:
  "occlusionCulling (no_effects (1, 1)) PAINT_SCREEN_REGION {}
      (scene_of [opaque_window 2 {(0, 0)} {}, opaque_window 3 {(0, 0), (7, 7)} {(0, 0)}])
   = \<lparr>c_windows = [opaque_window 2 {(0, 0)} {}, opaque_window 3 {(0, 0), (7, 7)} {}],
      c_phase2data =
        [\<lparr>p2_window = 2, p2_region = {}, p2_clip = {(0, 0)}, p2_mask = 9\<rparr>,
         \<lparr>p2_window = 3, p2_region = {(0, 0)}, p2_clip = {(0, 0), (7, 7)}, p2_mask = 9\<rparr>],
      c_allclips = {(0, 0), (7, 7)}, c_dirtyArea = {(0, 0)}, c_fullRepaint = True,
      c_repaintClip = {}\<rparr>"
  by (simp add: occlusionCulling_def occlusionPass_def scene_of_def Let_def opaque_window_step
      prePaintPass_Nil displayRegion_unit extendPaintRegion_no_effects
      del: prePaintPass.simps
      add: PAINT_SCREEN_REGION_def PAINT_WINDOW_OPAQUE_def PAINT_WINDOW_TRANSLUCENT_def)

theorem occlusion_top_opaque_witness:
  "c_phase2data (occlusionCulling (no_effects (1, 1)) PAINT_SCREEN_REGION {}
      (scene_of [opaque_window 2 {(0, 0)} {}, opaque_window 3 {(0, 0), (7, 7)} {(0, 0)}])) \<noteq> []
   \<and> displayRegion (no_effects (1, 1))
       \<subseteq> p2_clip (last (c_phase2data (occlusionCulling (no_effects (1, 1)) PAINT_SCREEN_REGION {}
            (scene_of [opaque_window 2 {(0, 0)} {}, opaque_window 3 {(0, 0), (7, 7)} {(0, 0)}]))))
   \<and> and (p2_mask (last (c_phase2data (occlusionCulling (no_effects (1, 1)) PAINT_SCREEN_REGION {}
            (scene_of [opaque_window 2 {(0, 0)} {}, opaque_window 3 {(0, 0), (7, 7)} {(0, 0)}])))))
        PAINT_WINDOW_TRANSLUCENT = 0
   \<and> c_fullRepaint (occlusionCulling (no_effects (1, 1)) PAINT_SCREEN_REGION {}
      (scene_of [opaque_window 2 {(0, 0)} {}, opaque_window 3 {(0, 0), (7, 7)} {(0, 0)}]))
   \<and> map p2_region (butlast (c_phase2data (occlusionCulling (no_effects (1, 1)) PAINT_SCREEN_REGION {}
      (scene_of [opaque_window 2 {(0, 0)} {}, opaque_window 3 {(0, 0), (7, 7)} {(0, 0)}])))) = [{}]
   \<and> backgroundFill (occlusionCulling (no_effects (1, 1)) PAINT_SCREEN_REGION {}
      (scene_of [opaque_window 2 {(0, 0)} {}, opaque_window 3 {(0, 0), (7, 7)} {(0, 0)}])) = {}"
  using occlusion_top_opaque [of "no_effects (1, 1)" PAINT_SCREEN_REGION "{}"
      "scene_of [opaque_window 2 {(0, 0)} {}, opaque_window 3 {(0, 0), (7, 7)} {(0, 0)}]"]
  by (simp add: covered_culling displayRegion_unit PAINT_WINDOW_TRANSLUCENT_def)

text \<open>
  Claim C1, as stated: the paint region of every window below a fully opaque top window
  that covers the output is empty, and so is the background fill region. On a 1x1 output
  the top window is opaque and covers the output's only pixel; the window below it has a
  pending repaint at (5, 5), outside the output (\<^verbatim>\<open>Window::addLayerRepaint\<close> does not clip
  to the screen unless per-screen rendering is on). After the occlusion pass the lower
  window's paint region is {(5, 5)}, and so is the background fill region.
\<close>

theorem occlusion_offscreen_counterexample:
  "displayRegion (no_effects (1, 1)) = {(0, 0)}
   \<and> isOpaque (opaque_window 3 {(0, 0)} {})
   \<and> c_phase2data (occlusionCulling (no_effects (1, 1)) PAINT_SCREEN_REGION {}
        (scene_of [opaque_window 2 {(0, 0)} {(5, 5)}, opaque_window 3 {(0, 0)} {}]))
      = [\<lparr>p2_window = 2, p2_region = {(5, 5)}, p2_clip = {(0, 0)}, p2_mask = 9\<rparr>,
         \<lparr>p2_window = 3, p2_region = {}, p2_clip = {(0, 0)}, p2_mask = 9\<rparr>]
   \<and> backgroundFill (occlusionCulling (no_effects (1, 1)) PAINT_SCREEN_REGION {}
        (scene_of [opaque_window 2 {(0, 0)} {(5, 5)}, opaque_window 3 {(0, 0)} {}])) = {(5, 5)}"
  by (simp add: occlusionCulling_def occlusionPass_def scene_of_def Let_def opaque_window_step
      prePaintPass_Nil displayRegion_unit backgroundFill_def extendPaintRegion_no_effects
      isOpaque_opaque_window
      del: prePaintPass.simps
      add: PAINT_SCREEN_REGION_def PAINT_WINDOW_OPAQUE_def PAINT_WINDOW_TRANSLUCENT_def)

end
